theory Spec2Isabelle
  imports Main "HOL-Library.Sublist"
begin

section \<open>Shallow embedding of tools/oesign/getopt\_long.c\<close>

text \<open>
  The C file keeps its scanner state in file-scope variables (\<open>opterr\<close>, \<open>optind\<close>,
  \<open>optopt\<close>, \<open>optreset\<close>, \<open>optarg\<close>, \<open>place\<close>, \<open>nonopt_start\<close>, \<open>nonopt_end\<close>) and
  permutes the caller's argument vector in place.  The embedding passes all of it in a
  record and returns the updated record.

  Conventions.
  \<^item> A C string is the list of its characters before the terminating NUL; \<open>*p\<close> of an empty
    string is the NUL character (\<open>deref\<close>).  A pointer into a string is the remaining suffix.
  \<^item> \<open>int\<close> is the mathematical integers: every index the code computes lies between
    \<open>-1\<close> and \<open>nargc + 1\<close>, so no arithmetic wraps.
  \<^item> The argument vector is the list of its strings; the slot right after the last string
    holds the null pointer (as \<open>argv[argc]\<close> does), any other index outside the list is an
    invalid access.
  \<^item> What C leaves undefined (division by zero, an access outside the vector, reading
    through a null pointer) is a \<open>fault\<close> returned as \<open>Inl\<close>.
\<close>

datatype fault = DivByZero | BadIndex | NullDeref

type_synonym addr = nat

text \<open>
  Modelled from the spec: getopt.h is not among the sources, so the argument arity of a
  long option (\<open>no_argument\<close>, \<open>required_argument\<close>, \<open>optional_argument\<close>) and the fields
  of \<open>struct option\<close> (name, arity, write-back destination, value) follow the spec's
  data model.
\<close>

datatype arity = no_argument | required_argument | optional_argument

record option_desc =
  name :: string
  has_arg :: arity
  flag :: "addr option"
  val :: int

record scanner =
  opterr :: int
  optind :: int
  optopt :: int
  optreset :: int
  optarg :: "string option"
  place :: string
  nonopt_start :: int
  nonopt_end :: int
  nargv :: "string list"
  mem :: "addr \<Rightarrow> int"
  err_out :: string
  permute_calls :: "(int \<times> int \<times> int) list"

text \<open>
  \<open>nargv\<close> is the caller's vector, \<open>mem\<close> the \<open>int\<close> objects reached through \<open>flag\<close> and
  \<open>idx\<close> pointers, \<open>err_out\<close> the characters written to \<open>err_file\<close>.  \<open>permute_calls\<close> is
  a ghost field the code never reads: the arguments of every \<open>permute_args\<close> call, the
  latest first.
\<close>

subsection \<open>Characters and strings\<close>

definition NUL :: char where
  "NUL = CHR 0x00"

text \<open>
  \<open>ord c\<close> is \<open>(int)c\<close> for a plain \<open>char\<close>: the type is signed on the platforms the tool is
  built for, so the bytes from \<open>0x80\<close> on are negative.
\<close>

definition ord :: "char \<Rightarrow> int" where
  "ord c = (if of_char c < (128::nat) then int (of_char c) else int (of_char c) - 256)"

definition deref :: "string \<Rightarrow> char" where
  "deref p = (case p of [] \<Rightarrow> NUL | c # _ \<Rightarrow> c)"

fun strchr :: "string \<Rightarrow> char \<Rightarrow> string option" where
  "strchr [] c = None"
| "strchr (x # xs) c = (if x = c then Some (x # xs) else strchr xs c)"

definition strncmp_zero :: "string \<Rightarrow> string \<Rightarrow> nat \<Rightarrow> bool" where
  "strncmp_zero a b n = (take n a = take n b)"

subsection \<open>Macros\<close>

definition IGNORE_FIRST :: "string \<Rightarrow> bool" where
  "IGNORE_FIRST options = (deref options = CHR ''-'' \<or> deref options = CHR ''+'')"

definition PRINT_ERROR :: "scanner \<Rightarrow> string \<Rightarrow> bool" where
  "PRINT_ERROR s options =
     (opterr s \<noteq> 0 \<and>
      (deref options \<noteq> CHR '':'' \<or>
       (IGNORE_FIRST options \<and> deref (tl options) \<noteq> CHR '':'')))"

definition PERMUTE :: "bool \<Rightarrow> string \<Rightarrow> bool" where
  "PERMUTE posixly_correct options = (\<not> posixly_correct \<and> \<not> IGNORE_FIRST options)"

definition IN_ORDER :: "bool \<Rightarrow> string \<Rightarrow> bool" where
  "IN_ORDER posixly_correct options = (\<not> posixly_correct \<and> deref options = CHR ''-'')"

definition BADCH :: int where
  "BADCH = ord CHR ''?''"

definition BADARG :: "string \<Rightarrow> int" where
  "BADARG options =
     (if (IGNORE_FIRST options \<and> deref (tl options) = CHR '':'') \<or> deref options = CHR '':''
      then ord CHR '':'' else ord CHR ''?'')"

definition INORDER :: int where
  "INORDER = 1"

subsection \<open>Diagnostics\<close>

definition warnx :: "string \<Rightarrow> scanner \<Rightarrow> scanner" where
  "warnx msg s = s\<lparr>err_out := err_out s @ ''getopt_long: '' @ msg @ [CHR 0x0A]\<rparr>"

definition recargchar :: "char \<Rightarrow> string" where
  "recargchar c = ''option requires an argument -- '' @ [c]"

definition recargstring :: "string \<Rightarrow> string" where
  "recargstring a = ''option requires an argument -- '' @ a"

definition ambig :: "nat \<Rightarrow> string \<Rightarrow> string" where
  "ambig n a = ''ambiguous option -- '' @ take n a"

definition noarg :: "nat \<Rightarrow> string \<Rightarrow> string" where
  "noarg n a = ''option doesn'' @ [CHR 0x27] @ ''t take an argument -- '' @ take n a"

definition illoptchar :: "char \<Rightarrow> string" where
  "illoptchar c = ''unknown option -- '' @ [c]"

definition illoptstring :: "string \<Rightarrow> string" where
  "illoptstring a = ''unknown option -- '' @ a"

subsection \<open>C integer division\<close>

definition c_div :: "int \<Rightarrow> int \<Rightarrow> int" where
  "c_div a b = sgn a * sgn b * (\<bar>a\<bar> div \<bar>b\<bar>)"

definition c_mod :: "int \<Rightarrow> int \<Rightarrow> int" where
  "c_mod a b = a - b * c_div a b"

lemma c_mod_sgn: "c_mod a b = sgn a * (\<bar>a\<bar> mod \<bar>b\<bar>)"
proof -
  have "sgn a * (\<bar>a\<bar> mod \<bar>b\<bar>) = sgn a * (\<bar>a\<bar> - \<bar>b\<bar> * (\<bar>a\<bar> div \<bar>b\<bar>))"
    by (simp add: minus_mult_div_eq_mod)
  also have "\<dots> = sgn a * \<bar>a\<bar> - (sgn a * \<bar>b\<bar>) * (\<bar>a\<bar> div \<bar>b\<bar>)"
    by (simp add: algebra_simps)
  also have "sgn a * \<bar>a\<bar> = a" by (simp add: sgn_mult_abs)
  also have "sgn a * \<bar>b\<bar> = b * sgn a * sgn b"
    by (cases "b < 0"; cases "b = 0"; simp)
  finally show ?thesis by (simp add: c_mod_def c_div_def algebra_simps)
qed

lemma c_mod_abs: "\<bar>c_mod a b\<bar> = \<bar>a\<bar> mod \<bar>b\<bar>"
  by (cases "a = 0"; cases "b = 0") (simp_all add: c_mod_sgn abs_mult)

lemma c_mod_less: "c \<noteq> 0 \<Longrightarrow> \<bar>c_mod b c\<bar> < \<bar>c\<bar>"
  by (simp add: c_mod_abs)

lemma c_mod_nonneg: "0 \<le> a \<Longrightarrow> 0 < b \<Longrightarrow> c_mod a b = a mod b"
  by (cases "a = 0") (simp_all add: c_mod_sgn)

lemma c_div_nonneg: "0 \<le> a \<Longrightarrow> 0 < b \<Longrightarrow> c_div a b = a div b"
  by (cases "a = 0") (simp_all add: c_div_def)

subsection \<open>gcd and permute\_args\<close>

function gcd_loop :: "int \<Rightarrow> int \<Rightarrow> int \<Rightarrow> int" where
  "gcd_loop a b c = (if c \<noteq> 0 then gcd_loop b c (c_mod b c) else b)"
  by pat_completeness auto
termination
  by (relation "measure (\<lambda>(a, b, c). nat \<bar>c\<bar>)") (auto simp: c_mod_less)

declare gcd_loop.simps [simp del]

definition gcd_c :: "int \<Rightarrow> int \<Rightarrow> fault + int" where
  "gcd_c a b = (if b = 0 then Inl DivByZero else Inr (gcd_loop a b (c_mod a b)))"

definition valid_index :: "'a list \<Rightarrow> int \<Rightarrow> bool" where
  "valid_index xs i = (0 \<le> i \<and> i < int (length xs))"

text \<open>Lines 173 to 176: the index the inner loop moves to.\<close>

definition next_pos :: "int \<Rightarrow> int \<Rightarrow> int \<Rightarrow> int \<Rightarrow> int" where
  "next_pos panonopt_end nnonopts nopts pos =
     (if pos \<ge> panonopt_end then pos - nnonopts else pos + nopts)"

function cycle_loop ::
  "int \<Rightarrow> int \<Rightarrow> int \<Rightarrow> int \<Rightarrow> int \<Rightarrow> int \<Rightarrow> int \<Rightarrow> 'a list \<Rightarrow> fault + 'a list" where
  "cycle_loop panonopt_end nnonopts nopts cstart cyclelen j pos v =
     (if j < cyclelen then
        (let pos' = next_pos panonopt_end nnonopts nopts pos
         in if valid_index v pos' \<and> valid_index v cstart
            then cycle_loop panonopt_end nnonopts nopts cstart cyclelen (j + 1) pos'
                   (v[nat pos' := v ! nat cstart, nat cstart := v ! nat pos'])
            else Inl BadIndex)
      else Inr v)"
  by pat_completeness auto
termination
  by (relation "measure (\<lambda>(pe, nn, no, cs, cl, j, pos, v). nat (cl - j))") auto

declare cycle_loop.simps [simp del]

function permute_loop ::
  "int \<Rightarrow> int \<Rightarrow> int \<Rightarrow> int \<Rightarrow> int \<Rightarrow> int \<Rightarrow> 'a list \<Rightarrow> fault + 'a list" where
  "permute_loop panonopt_end nnonopts nopts cyclelen ncycle i v =
     (if i < ncycle then
        (case cycle_loop panonopt_end nnonopts nopts (panonopt_end + i) cyclelen 0
                (panonopt_end + i) v of
           Inl f \<Rightarrow> Inl f
         | Inr v' \<Rightarrow> permute_loop panonopt_end nnonopts nopts cyclelen ncycle (i + 1) v')
      else Inr v)"
  by pat_completeness auto
termination
  by (relation "measure (\<lambda>(pe, nn, no, cl, nc, i, v). nat (nc - i))") auto

declare permute_loop.simps [simp del]

definition permute_args :: "int \<Rightarrow> int \<Rightarrow> int \<Rightarrow> 'a list \<Rightarrow> fault + 'a list" where
  "permute_args panonopt_start panonopt_end opt_end v =
     (let nnonopts = panonopt_end - panonopt_start;
          nopts = opt_end - panonopt_end
      in case gcd_c nnonopts nopts of
           Inl f \<Rightarrow> Inl f
         | Inr ncycle \<Rightarrow>
             if ncycle = 0 then Inl DivByZero
             else permute_loop panonopt_end nnonopts nopts
                    (c_div (opt_end - panonopt_start) ncycle) ncycle 0 v)"

subsection \<open>getopt\_internal\<close>

definition argv_read :: "string list \<Rightarrow> int \<Rightarrow> fault + string option" where
  "argv_read v i =
     (if 0 \<le> i \<and> i < int (length v) then Inr (Some (v ! nat i))
      else if i = int (length v) then Inr None
      else Inl BadIndex)"

text \<open>
  Every call site passes \<open>nonopt_start, nonopt_end, optind, nargv\<close>; the helper performs
  that call and records its arguments in the ghost field.
\<close>

definition call_permute_args :: "scanner \<Rightarrow> fault + scanner" where
  "call_permute_args s =
     (case permute_args (nonopt_start s) (nonopt_end s) (optind s) (nargv s) of
        Inl f \<Rightarrow> Inl f
      | Inr v \<Rightarrow>
          Inr (s\<lparr>nargv := v,
                 permute_calls := (nonopt_start s, nonopt_end s, optind s) # permute_calls s\<rparr>))"

text \<open>
  One pass through the code from the label \<open>start\<close> to the end of the "update scanning
  pointer" block (lines 204 to 272).  The pass ends in \<open>return r\<close>, in \<open>goto start\<close>, or
  falls through to the option-letter code.
\<close>

datatype control = Return int | Goto_start | Fall_through

text \<open>Lines 211 to 228: the end of the argument vector.\<close>

definition end_of_vector :: "scanner \<Rightarrow> fault + (control \<times> scanner)" where
  "end_of_vector s0 =
     (let s = s0\<lparr>place := []\<rparr> in
      if nonopt_end s \<noteq> -1 then
        (case call_permute_args s of
           Inl f \<Rightarrow> Inl f
         | Inr s' \<Rightarrow>
             Inr (Return (-1),
                  s'\<lparr>optind := optind s' - (nonopt_end s' - nonopt_start s'),
                     nonopt_start := -1, nonopt_end := -1\<rparr>))
      else if nonopt_start s \<noteq> -1 then
        Inr (Return (-1),
             s\<lparr>optind := nonopt_start s, nonopt_start := -1, nonopt_end := -1\<rparr>)
      else Inr (Return (-1), s\<lparr>nonopt_start := -1, nonopt_end := -1\<rparr>))"

text \<open>Lines 232 to 262: the token \<open>tok\<close> at \<open>optind\<close> is not an option.\<close>

definition found_non_option ::
  "bool \<Rightarrow> string \<Rightarrow> string \<Rightarrow> scanner \<Rightarrow> fault + (control \<times> scanner)" where
  "found_non_option posixly_correct options tok s0 =
     (let s = s0\<lparr>place := []\<rparr> in
      if IN_ORDER posixly_correct options then
        Inr (Return INORDER, s\<lparr>optarg := Some tok, optind := optind s + 1\<rparr>)
      else if \<not> PERMUTE posixly_correct options then Inr (Return (-1), s)
      else
        (case (if nonopt_start s = -1 then Inr (s\<lparr>nonopt_start := optind s\<rparr>)
               else if nonopt_end s \<noteq> -1 then
                 (case call_permute_args s of
                    Inl f \<Rightarrow> Inl f
                  | Inr s' \<Rightarrow>
                      Inr (s'\<lparr>nonopt_start := optind s' - (nonopt_end s' - nonopt_start s'),
                              nonopt_end := -1\<rparr>))
               else Inr s) of
           Inl f \<Rightarrow> Inl f
         | Inr s \<Rightarrow> Inr (Goto_start, s\<lparr>optind := optind s + 1\<rparr>)))"

text \<open>Lines 264 to 271: the token \<open>tok\<close> at \<open>optind\<close> starts with \<open>-\<close> and is longer.\<close>

definition found_option :: "string \<Rightarrow> scanner \<Rightarrow> fault + (control \<times> scanner)" where
  "found_option tok s0 =
     (let s = s0\<lparr>place := tok\<rparr>;
          s = (if nonopt_start s \<noteq> -1 \<and> nonopt_end s = -1
               then s\<lparr>nonopt_end := optind s\<rparr> else s);
          s = s\<lparr>place := tl (place s)\<rparr>
      in if deref (place s) = CHR ''-''
         then Inr (Return (-2), s\<lparr>place := tl (place s)\<rparr>)
         else Inr (Fall_through, s))"

definition scan_step ::
  "bool \<Rightarrow> int \<Rightarrow> string \<Rightarrow> scanner \<Rightarrow> fault + (control \<times> scanner)" where
  "scan_step posixly_correct nargc options s0 =
     (if optreset s0 \<noteq> 0 \<or> place s0 = [] then
        (let s = s0\<lparr>optreset := 0\<rparr> in
         if optind s \<ge> nargc then end_of_vector s
         else
           (case argv_read (nargv s) (optind s) of
              Inl f \<Rightarrow> Inl f
            | Inr None \<Rightarrow> Inl NullDeref
            | Inr (Some tok) \<Rightarrow>
                if deref tok \<noteq> CHR ''-'' \<or> tl tok = []
                then found_non_option posixly_correct options tok s
                else found_option tok s))
      else Inr (Fall_through, s0))"

lemma call_permute_args_optind: "call_permute_args s = Inr s' \<Longrightarrow> optind s' = optind s"
  by (auto simp: call_permute_args_def split: sum.splits)

lemma scan_step_goto:
  "scan_step p nargc options s = Inr (Goto_start, s') \<Longrightarrow>
   optind s < nargc \<and> optind s' = optind s + 1"
  by (auto simp: scan_step_def end_of_vector_def found_non_option_def found_option_def Let_def
           split: if_splits sum.splits option.splits dest: call_permute_args_optind)

text \<open>The loop that \<open>goto start\<close> forms: passes are repeated until one returns or falls through.\<close>

function start_loop ::
  "bool \<Rightarrow> int \<Rightarrow> string \<Rightarrow> scanner \<Rightarrow> fault + (control \<times> scanner)" where
  "start_loop posixly_correct nargc options s =
     (case scan_step posixly_correct nargc options s of
        Inl f \<Rightarrow> Inl f
      | Inr (c, s') \<Rightarrow>
          if c = Goto_start then start_loop posixly_correct nargc options s'
          else Inr (c, s'))"
  by pat_completeness auto
termination
  by (relation "measure (\<lambda>(p, nargc, options, s). nat (nargc - optind s))")
     (auto dest: scan_step_goto)

declare start_loop.simps [simp del]

text \<open>The option-letter code, lines 273 to 344.\<close>

definition option_letter :: "int \<Rightarrow> string \<Rightarrow> scanner \<Rightarrow> fault + (int \<times> scanner)" where
  "option_letter nargc options s0 =
     (let optchar = deref (place s0);
          s = s0\<lparr>place := tl (place s0)\<rparr>;
          oli = strchr (if IGNORE_FIRST options then tl options else options) optchar
      in if optchar = CHR '':'' \<or> oli = None then
           (let s = (if place s = [] then s\<lparr>optind := optind s + 1\<rparr> else s);
                s = (if PRINT_ERROR s options then warnx (illoptchar optchar) s else s);
                s = s\<lparr>optopt := ord optchar\<rparr>
            in Inr (BADCH, s))
         else
           (let oli = the oli in
            if optchar = CHR ''W'' \<and> deref (tl oli) = CHR '';'' then
              (if place s \<noteq> [] then Inr (-2, s)
               else
                 (let s = s\<lparr>optind := optind s + 1\<rparr> in
                  if optind s \<ge> nargc then
                    (let s = s\<lparr>place := []\<rparr>;
                         s = (if PRINT_ERROR s options then warnx (recargchar optchar) s else s);
                         s = s\<lparr>optopt := ord optchar\<rparr>
                     in Inr (BADARG options, s))
                  else
                    (case argv_read (nargv s) (optind s) of
                       Inl f \<Rightarrow> Inl f
                     | Inr None \<Rightarrow> Inl NullDeref
                     | Inr (Some a) \<Rightarrow> Inr (-2, s\<lparr>place := a\<rparr>))))
            else
              (let oli = tl oli in
               if deref oli \<noteq> CHR '':'' then
                 Inr (ord optchar, if place s = [] then s\<lparr>optind := optind s + 1\<rparr> else s)
               else
                 (let s = s\<lparr>optarg := None\<rparr> in
                  if place s \<noteq> [] then
                    Inr (ord optchar,
                         s\<lparr>optarg := Some (place s), place := [], optind := optind s + 1\<rparr>)
                  else if deref (tl oli) \<noteq> CHR '':'' then
                    (let s = s\<lparr>optind := optind s + 1\<rparr> in
                     if optind s \<ge> nargc then
                       (let s = s\<lparr>place := []\<rparr>;
                            s = (if PRINT_ERROR s options
                                 then warnx (recargchar optchar) s else s);
                            s = s\<lparr>optopt := ord optchar\<rparr>
                        in Inr (BADARG options, s))
                     else
                       (case argv_read (nargv s) (optind s) of
                          Inl f \<Rightarrow> Inl f
                        | Inr a \<Rightarrow>
                            Inr (ord optchar,
                                 s\<lparr>optarg := a, place := [], optind := optind s + 1\<rparr>)))
                  else Inr (ord optchar, s\<lparr>place := [], optind := optind s + 1\<rparr>)))))"

text \<open>Lines 197 to 203, before the label \<open>start\<close>.\<close>

definition enter :: "scanner \<Rightarrow> scanner" where
  "enter s0 =
     (let s = s0\<lparr>optarg := None\<rparr>;
          s = (if optind s = 0 then s\<lparr>optind := 1\<rparr> else s);
          s = (if optreset s \<noteq> 0 then s\<lparr>nonopt_start := -1, nonopt_end := -1\<rparr> else s)
      in s)"

definition getopt_internal ::
  "bool \<Rightarrow> int \<Rightarrow> string \<Rightarrow> scanner \<Rightarrow> fault + (int \<times> scanner)" where
  "getopt_internal posixly_correct nargc options s0 =
     (case start_loop posixly_correct nargc options (enter s0) of
        Inl f \<Rightarrow> Inl f
      | Inr (Return r, s) \<Rightarrow> Inr (r, s)
      | Inr (_, s) \<Rightarrow> option_letter nargc options s)"

subsection \<open>getopt\_long\<close>

definition IDENTICAL_INTERPRETATION :: "option_desc list \<Rightarrow> nat \<Rightarrow> nat \<Rightarrow> bool" where
  "IDENTICAL_INTERPRETATION long_options x y =
     (has_arg (long_options ! x) = has_arg (long_options ! y) \<and>
      flag (long_options ! x) = flag (long_options ! y) \<and>
      val (long_options ! x) = val (long_options ! y))"

text \<open>
  The table is the list of its entries before the terminating entry with a null name.
  The loop of lines 449 to 469 returns \<open>match\<close> and \<open>ambiguous\<close>.
\<close>

function long_match_loop ::
  "option_desc list \<Rightarrow> string \<Rightarrow> nat \<Rightarrow> nat \<Rightarrow> int \<Rightarrow> bool \<Rightarrow> int \<times> bool" where
  "long_match_loop long_options current_argv current_argv_len i match ambiguous =
     (if i < length long_options then
        (if \<not> strncmp_zero current_argv (name (long_options ! i)) current_argv_len then
           long_match_loop long_options current_argv current_argv_len (i + 1) match ambiguous
         else if length (name (long_options ! i)) = current_argv_len then (int i, False)
         else if match = -1 then
           long_match_loop long_options current_argv current_argv_len (i + 1) (int i) ambiguous
         else if \<not> IDENTICAL_INTERPRETATION long_options i (nat match) then
           long_match_loop long_options current_argv current_argv_len (i + 1) match True
         else long_match_loop long_options current_argv current_argv_len (i + 1) match ambiguous)
      else (match, ambiguous))"
  by pat_completeness auto
termination
  by (relation "measure (\<lambda>(lo, ca, n, i, m, a). length lo - i)") auto

declare long_match_loop.simps [simp del]

text \<open>
  Lines 438 to 447: \<open>has_equal\<close> points behind the first \<open>=\<close> of the text (null when
  there is none), \<open>current_argv_len\<close> counts the characters before it.
\<close>

definition has_equal_of :: "string \<Rightarrow> string option" where
  "has_equal_of current_argv =
     (case strchr current_argv CHR ''='' of None \<Rightarrow> None | Some r \<Rightarrow> Some (tl r))"

definition current_argv_len_of :: "string \<Rightarrow> nat" where
  "current_argv_len_of current_argv =
     (case strchr current_argv CHR ''='' of
        None \<Rightarrow> length current_argv
      | Some r \<Rightarrow> length current_argv - length r)"

text \<open>The body of \<open>if (retval == -2)\<close>, lines 408 to 541.\<close>

definition long_option ::
  "string \<Rightarrow> option_desc list \<Rightarrow> addr option \<Rightarrow> scanner \<Rightarrow> fault + (int \<times> scanner)" where
  "long_option options long_options idx s0 =
     (let current_argv = place s0;
          s = s0\<lparr>optind := optind s0 + 1, place := []\<rparr>
      in if current_argv = [] then
           (case (if nonopt_end s \<noteq> -1 then
                    (case call_permute_args s of
                       Inl f \<Rightarrow> Inl f
                     | Inr s' \<Rightarrow>
                         Inr (s'\<lparr>optind := optind s' - (nonopt_end s' - nonopt_start s')\<rparr>))
                  else Inr s) of
              Inl f \<Rightarrow> Inl f
            | Inr s \<Rightarrow> Inr (-1, s\<lparr>nonopt_start := -1, nonopt_end := -1\<rparr>))
         else
           (let has_equal = has_equal_of current_argv;
                current_argv_len = current_argv_len_of current_argv;
                (match, ambiguous) =
                  long_match_loop long_options current_argv current_argv_len 0 (-1) False
            in if ambiguous then
                 (let s = (if PRINT_ERROR s options
                           then warnx (ambig current_argv_len current_argv) s else s)
                  in Inr (BADCH, s\<lparr>optopt := 0\<rparr>))
               else if match \<noteq> -1 then
                 (let opt = long_options ! nat match in
                  if has_arg opt = no_argument \<and> has_equal \<noteq> None then
                    (let s = (if PRINT_ERROR s options
                              then warnx (noarg current_argv_len current_argv) s else s)
                     in Inr (BADARG options,
                             s\<lparr>optopt := (if flag opt = None then val opt else 0)\<rparr>))
                  else
                    (case (if has_arg opt = required_argument \<or> has_arg opt = optional_argument
                           then
                             (if has_equal \<noteq> None then Inr (s\<lparr>optarg := has_equal\<rparr>)
                              else if has_arg opt = required_argument then
                                (case argv_read (nargv s) (optind s) of
                                   Inl f \<Rightarrow> Inl f
                                 | Inr a \<Rightarrow> Inr (s\<lparr>optarg := a, optind := optind s + 1\<rparr>))
                              else Inr s)
                           else Inr s) of
                       Inl f \<Rightarrow> Inl f
                     | Inr s \<Rightarrow>
                         if has_arg opt = required_argument \<and> optarg s = None then
                           (let s = (if PRINT_ERROR s options
                                     then warnx (recargstring current_argv) s else s);
                                s = s\<lparr>optopt := (if flag opt = None then val opt else 0)\<rparr>
                            in Inr (BADARG options, s\<lparr>optind := optind s - 1\<rparr>))
                         else
                           (let (retval, s) =
                                  (case flag opt of
                                     Some p \<Rightarrow> (0, s\<lparr>mem := (mem s)(p := val opt)\<rparr>)
                                   | None \<Rightarrow> (val opt, s));
                                s = (case idx of
                                       Some q \<Rightarrow> s\<lparr>mem := (mem s)(q := match)\<rparr>
                                     | None \<Rightarrow> s)
                            in Inr (retval, s))))
               else
                 (let s = (if PRINT_ERROR s options
                           then warnx (illoptstring current_argv) s else s)
                  in Inr (BADCH, s\<lparr>optopt := 0\<rparr>))))"

definition getopt_long ::
  "bool \<Rightarrow> int \<Rightarrow> string \<Rightarrow> option_desc list \<Rightarrow> addr option \<Rightarrow> scanner
     \<Rightarrow> fault + (int \<times> scanner)" where
  "getopt_long posixly_correct nargc options long_options idx s =
     (case getopt_internal posixly_correct nargc options s of
        Inl f \<Rightarrow> Inl f
      | Inr (retval, s) \<Rightarrow>
          if retval = -2 then long_option options long_options idx s else Inr (retval, s))"

text \<open>The initial values of the file-scope variables, for a given vector and memory.\<close>

definition initial :: "string list \<Rightarrow> (addr \<Rightarrow> int) \<Rightarrow> scanner" where
  "initial v m =
     \<lparr>opterr = 1, optind = 1, optopt = ord CHR ''?'', optreset = 0, optarg = None,
      place = [], nonopt_start = -1, nonopt_end = -1, nargv = v, mem = m,
      err_out = [], permute_calls = []\<rparr>"


section \<open>Properties\<close>

subsection \<open>Vocabulary for the statements\<close>

lemma deref_simps [simp]: "deref [] = NUL" "deref (c # cs) = c"
  by (simp_all add: deref_def)

lemma NUL_neq [simp]: "NUL \<noteq> CHR ''-''" "NUL \<noteq> CHR '':''" "NUL \<noteq> CHR '';''" "NUL \<noteq> CHR ''+''"
  "CHR ''-'' \<noteq> NUL" "CHR '':'' \<noteq> NUL"
  by (simp_all add: NUL_def)

text \<open>
  The \<open>int\<close> value of a character: the seven-bit characters are their codes, the byte
  \<open>0xFF\<close> is \<open>-1\<close> and the byte \<open>0xFE\<close> is \<open>-2\<close>, the value \<open>getopt_internal\<close> also
  returns to ask \<open>getopt_long\<close> for the long-option code.
\<close>

lemma of_char_bound: "(of_char c :: nat) \<le> 255"
  by (cases c) simp

lemma ord_range: "- 128 \<le> ord c \<and> ord c < 128"
  using of_char_bound [of c] unfolding ord_def by (cases "of_char c < (128::nat)") auto

lemma ord_inj: "ord c = ord d \<longleftrightarrow> c = d"
proof
  assume e: "ord c = ord d"
  from e of_char_bound [of c] of_char_bound [of d] have "(of_char c :: nat) = of_char d"
    unfolding ord_def by (cases "of_char c < (128::nat)"; cases "of_char d < (128::nat)") auto
  then show "c = d" by simp
qed simp

lemma ord_m1: "ord c = - 1 \<longleftrightarrow> c = CHR 0xFF"
proof -
  have "ord (CHR 0xFF) = - 1" by (simp add: ord_def)
  then show ?thesis using ord_inj [of c "CHR 0xFF"] by auto
qed

lemma ord_m2: "ord c = - 2 \<longleftrightarrow> c = CHR 0xFE"
proof -
  have "ord (CHR 0xFE) = - 2" by (simp add: ord_def)
  then show ?thesis using ord_inj [of c "CHR 0xFE"] by auto
qed

lemma BADCH_value: "BADCH = 63"
  by (simp add: BADCH_def ord_def)

lemma BADARG_value: "BADARG options = 58 \<or> BADARG options = 63"
  by (simp add: BADARG_def ord_def)

lemma BADARG_neq_m2 [simp]: "BADARG options \<noteq> - 2"
  using BADARG_value [of options] by auto

lemma BADCH_neq_m2 [simp]: "BADCH \<noteq> - 2"
  by (simp add: BADCH_value)

lemma strchr_length: "strchr a c = Some r \<Longrightarrow> length r \<le> length a"
  by (induction a) (auto split: if_splits)

lemma strchr_Some: "strchr a c = Some r \<Longrightarrow> \<exists>pre. a = pre @ r \<and> c \<notin> set pre \<and> r \<noteq> [] \<and> hd r = c"
proof (induction a)
  case Nil
  then show ?case by simp
next
  case (Cons x a)
  show ?case
  proof (cases "x = c")
    case True
    with Cons.prems show ?thesis by (intro exI [of _ "[]"]) auto
  next
    case False
    with Cons obtain pre where "a = pre @ r" "c \<notin> set pre" "r \<noteq> []" "hd r = c" by auto
    with False show ?thesis by (intro exI [of _ "x # pre"]) auto
  qed
qed

lemma strchr_None: "strchr a c = None \<longleftrightarrow> c \<notin> set a"
  by (induction a) auto

lemma strchr_append: "c \<notin> set pre \<Longrightarrow> strchr (pre @ c # tail) c = Some (c # tail)"
  by (induction pre) auto

text \<open>
  \<open>short_arity options c\<close> reads the declaration of the letter \<open>c\<close> off the option string
  the way the option-letter code does: \<open>:\<close> is never an option, the first occurrence of
  \<open>c\<close> counts (behind a leading \<open>-\<close> or \<open>+\<close>), one colon behind it asks for an argument
  and two colons make the argument optional.  \<open>short_arity_iff\<close> says the same on the
  option string itself, without the search.
\<close>

definition short_arity :: "string \<Rightarrow> char \<Rightarrow> arity option" where
  "short_arity options c =
     (if c = CHR '':'' then None
      else case strchr (if IGNORE_FIRST options then tl options else options) c of
             None \<Rightarrow> None
           | Some oli \<Rightarrow>
               if deref (tl oli) \<noteq> CHR '':'' then Some no_argument
               else if deref (tl (tl oli)) \<noteq> CHR '':'' then Some required_argument
               else Some optional_argument)"

lemma short_arity_iff:
  "short_arity options c = Some a \<longleftrightarrow>
   c \<noteq> CHR '':'' \<and>
   (\<exists>pre tail. (if IGNORE_FIRST options then tl options else options) = pre @ c # tail \<and>
      c \<notin> set pre \<and>
      a = (if deref tail \<noteq> CHR '':'' then no_argument
           else if deref (tl tail) \<noteq> CHR '':'' then required_argument
           else optional_argument))"
  (is "?L \<longleftrightarrow> ?R")
proof
  let ?o = "if IGNORE_FIRST options then tl options else options"
  assume l: ?L
  then have c: "c \<noteq> CHR '':''" by (auto simp: short_arity_def split: if_splits)
  with l obtain oli where oli: "strchr ?o c = Some oli"
    and a: "a = (if deref (tl oli) \<noteq> CHR '':'' then no_argument
           else if deref (tl (tl oli)) \<noteq> CHR '':'' then required_argument
           else optional_argument)"
    by (auto simp: short_arity_def split: if_splits option.splits)
  from strchr_Some [OF oli] obtain pre where p: "?o = pre @ oli" "c \<notin> set pre" "oli \<noteq> []"
    "hd oli = c" by blast
  then have "oli = c # tl oli" by (cases oli) simp_all
  with p have "?o = pre @ c # tl oli" by simp
  with c p(2) a show ?R by blast
next
  let ?o = "if IGNORE_FIRST options then tl options else options"
  assume ?R
  then obtain pre tail where c: "c \<noteq> CHR '':''" and o: "?o = pre @ c # tail" "c \<notin> set pre"
    and a: "a = (if deref tail \<noteq> CHR '':'' then no_argument
           else if deref (tl tail) \<noteq> CHR '':'' then required_argument
           else optional_argument)"
    by blast
  from strchr_append [OF o(2), of tail] o(1) have "strchr ?o c = Some (c # tail)" by simp
  with c a show ?L by (simp add: short_arity_def)
qed

lemma short_arityD:
  assumes "short_arity options c = Some a"
  shows "c \<noteq> CHR '':''"
    and "\<exists>oli. strchr (if IGNORE_FIRST options then tl options else options) c = Some oli \<and>
           (a = no_argument \<longleftrightarrow> deref (tl oli) \<noteq> CHR '':'') \<and>
           (a = required_argument \<longleftrightarrow> deref (tl oli) = CHR '':'' \<and> deref (tl (tl oli)) \<noteq> CHR '':'') \<and>
           (a = optional_argument \<longleftrightarrow> deref (tl oli) = CHR '':'' \<and> deref (tl (tl oli)) = CHR '':'')"
  using assms by (auto simp: short_arity_def split: if_splits option.splits)

lemma short_arity_None:
  "short_arity options c = None \<longleftrightarrow>
   c = CHR '':'' \<or> strchr (if IGNORE_FIRST options then tl options else options) c = None"
  by (simp add: short_arity_def split: option.splits)

text \<open>
  \<open>W_escape options c\<close>: the letter is \<open>W\<close> and the option string declares it with a
  semicolon, which makes \<open>-W text\<close> stand for \<open>--text\<close>.
\<close>

definition W_escape :: "string \<Rightarrow> char \<Rightarrow> bool" where
  "W_escape options c =
     (c = CHR ''W'' \<and>
      (case strchr (if IGNORE_FIRST options then tl options else options) c of
         None \<Rightarrow> False | Some oli \<Rightarrow> deref (tl oli) = CHR '';''))"

text \<open>
  \<open>letter_state s rest\<close> is the state in which the code behind the label \<open>start\<close> leaves
  the scanner when the token at \<open>optind\<close> is an option whose text behind the dashes is
  \<open>rest\<close>.
\<close>

definition letter_state :: "scanner \<Rightarrow> string \<Rightarrow> scanner" where
  "letter_state s rest =
     (if optreset s = 0 \<and> place s \<noteq> [] then s\<lparr>optarg := None\<rparr>
      else if optreset s \<noteq> 0
        then s\<lparr>optarg := None, optreset := 0, place := rest, nonopt_start := -1, nonopt_end := -1\<rparr>
        else s\<lparr>optarg := None, place := rest,
               nonopt_end := (if nonopt_start s \<noteq> -1 \<and> nonopt_end s = -1
                              then optind s else nonopt_end s)\<rparr>)"

lemma start_loop_mid:
  "optreset s = 0 \<Longrightarrow> place s \<noteq> [] \<Longrightarrow> start_loop p nargc options s = Inr (Fall_through, s)"
  by (subst start_loop.simps) (simp add: scan_step_def)

lemma start_loop_token:
  assumes "optreset s \<noteq> 0 \<or> place s = []" "0 \<le> optind s" "optind s < nargc"
    "optind s < int (length (nargv s))" "nargv s ! nat (optind s) = CHR ''-'' # c # rest"
  shows "start_loop p nargc options s =
     (let s1 = s\<lparr>optreset := 0, place := rest,
                 nonopt_end := (if nonopt_start s \<noteq> -1 \<and> nonopt_end s = -1
                                then optind s else nonopt_end s)\<rparr>
      in if c = CHR ''-'' then Inr (Return (-2), s1)
         else Inr (Fall_through, s1\<lparr>place := c # rest\<rparr>))"
  using assms
  by (subst start_loop.simps) (auto simp: scan_step_def found_option_def argv_read_def Let_def)

lemma letter_state_fields [simp]:
  "optind (letter_state s pl) = optind s"
  "nargv (letter_state s pl) = nargv s"
  "place (letter_state s pl) = (if optreset s = 0 \<and> place s \<noteq> [] then place s else pl)"
  "opterr (letter_state s pl) = opterr s"
  "mem (letter_state s pl) = mem s"
  by (simp_all add: letter_state_def)


subsection \<open>The long-option matcher\<close>

definition long_text :: "string \<Rightarrow> string" where
  "long_text cur = take (current_argv_len_of cur) cur"

definition prefix_match :: "option_desc list \<Rightarrow> string \<Rightarrow> nat \<Rightarrow> bool" where
  "prefix_match lo cur i =
     (i < length lo \<and> strncmp_zero cur (name (lo ! i)) (current_argv_len_of cur))"

definition exact_match :: "option_desc list \<Rightarrow> string \<Rightarrow> nat \<Rightarrow> bool" where
  "exact_match lo cur i =
     (prefix_match lo cur i \<and> length (name (lo ! i)) = current_argv_len_of cur)"

lemma current_argv_len_le: "current_argv_len_of cur \<le> length cur"
  by (auto simp: current_argv_len_of_def split: option.splits)

lemma length_long_text [simp]: "length (long_text cur) = current_argv_len_of cur"
  by (simp add: long_text_def current_argv_len_le)

lemma prefix_match_iff:
  "prefix_match lo cur i \<longleftrightarrow> i < length lo \<and> prefix (long_text cur) (name (lo ! i))"
proof -
  have "take (current_argv_len_of cur) cur = take (current_argv_len_of cur) nm \<longleftrightarrow>
        prefix (long_text cur) nm" for nm
  proof
    assume "take (current_argv_len_of cur) cur = take (current_argv_len_of cur) nm"
    then have "long_text cur = take (current_argv_len_of cur) nm" by (simp add: long_text_def)
    then show "prefix (long_text cur) nm" by (metis take_is_prefix)
  next
    assume "prefix (long_text cur) nm"
    then obtain r where "nm = long_text cur @ r" by (auto simp: prefix_def)
    then have "take (current_argv_len_of cur) nm = long_text cur" by simp
    then show "take (current_argv_len_of cur) cur = take (current_argv_len_of cur) nm"
      by (simp add: long_text_def)
  qed
  then show ?thesis by (simp add: prefix_match_def strncmp_zero_def)
qed

lemma exact_match_iff:
  "exact_match lo cur i \<longleftrightarrow> i < length lo \<and> name (lo ! i) = long_text cur"
  unfolding exact_match_def prefix_match_iff
  by (auto simp: prefix_def)

lemma IDENTICAL_refl: "IDENTICAL_INTERPRETATION lo i i"
  by (simp add: IDENTICAL_INTERPRETATION_def)

lemma IDENTICAL_trans_sym:
  "IDENTICAL_INTERPRETATION lo i k \<Longrightarrow> IDENTICAL_INTERPRETATION lo j k \<Longrightarrow>
   IDENTICAL_INTERPRETATION lo i j"
  by (simp add: IDENTICAL_INTERPRETATION_def)

lemma long_match_loop_step:
  "i < length lo \<Longrightarrow>
   long_match_loop lo cur (current_argv_len_of cur) i m a =
     (if \<not> prefix_match lo cur i
      then long_match_loop lo cur (current_argv_len_of cur) (Suc i) m a
      else if exact_match lo cur i then (int i, False)
      else if m = - 1 then long_match_loop lo cur (current_argv_len_of cur) (Suc i) (int i) a
      else if \<not> IDENTICAL_INTERPRETATION lo i (nat m)
        then long_match_loop lo cur (current_argv_len_of cur) (Suc i) m True
        else long_match_loop lo cur (current_argv_len_of cur) (Suc i) m a)"
  by (subst long_match_loop.simps) (simp add: exact_match_def prefix_match_def)

lemma long_match_loop_end:
  "\<not> i < length lo \<Longrightarrow> long_match_loop lo cur n i m a = (m, a)"
  by (subst long_match_loop.simps) simp

lemma ex_from_split: "(\<exists>j\<ge>i. Q j) \<longleftrightarrow> Q i \<or> (\<exists>j\<ge>Suc i. Q j)" for i :: nat
  by (metis Suc_leD Suc_le_eq le_eq_less_or_eq order_refl)

lemma long_match_loop_exact:
  assumes "i \<le> e" "exact_match lo cur e" "\<And>j. i \<le> j \<Longrightarrow> j < e \<Longrightarrow> \<not> exact_match lo cur j"
  shows "long_match_loop lo cur (current_argv_len_of cur) i m a = (int e, False)"
  using assms(1,3)
proof (induction i arbitrary: m a rule: inc_induct)
  case base
  with assms(2) show ?case
    by (simp add: long_match_loop_step exact_match_def prefix_match_def)
next
  case (step k)
  from step.hyps assms(2) have k: "k < length lo" by (simp add: exact_match_def prefix_match_def)
  from step.prems [of k] step.hyps have ne: "\<not> exact_match lo cur k" by simp
  have ih: "long_match_loop lo cur (current_argv_len_of cur) (Suc k) m' a' = (int e, False)"
    for m' a'
    using step.IH [of m' a'] step.prems by simp
  show ?case
    using k ne by (simp add: long_match_loop_step ih)
qed

lemma long_match_loop_matched:
  assumes "m \<noteq> - 1" "\<And>j. i \<le> j \<Longrightarrow> \<not> exact_match lo cur j"
  shows "long_match_loop lo cur (current_argv_len_of cur) i m a =
           (m, a \<or> (\<exists>j\<ge>i. prefix_match lo cur j \<and> \<not> IDENTICAL_INTERPRETATION lo j (nat m)))"
  using assms(2)
proof (induction "length lo - i" arbitrary: i a)
  case 0
  then have "\<not> i < length lo" by simp
  then show ?case by (auto simp: long_match_loop_end prefix_match_def)
next
  case (Suc d)
  then have i: "i < length lo" by simp
  have ih: "long_match_loop lo cur (current_argv_len_of cur) (Suc i) m a' =
           (m, a' \<or> (\<exists>j\<ge>Suc i. prefix_match lo cur j \<and> \<not> IDENTICAL_INTERPRETATION lo j (nat m)))"
    for a'
    using Suc.hyps(1) [of "Suc i" a'] Suc.hyps(2) Suc.prems by simp
  from Suc.prems [of i] have ne: "\<not> exact_match lo cur i" by simp
  show ?case
    using i ne assms(1)
    by (subst ex_from_split) (simp add: long_match_loop_step ih)
qed

lemma long_match_loop_first:
  assumes "i \<le> f" "prefix_match lo cur f" "\<And>j. i \<le> j \<Longrightarrow> j < f \<Longrightarrow> \<not> prefix_match lo cur j"
    "\<And>j. i \<le> j \<Longrightarrow> \<not> exact_match lo cur j"
  shows "long_match_loop lo cur (current_argv_len_of cur) i (- 1) a =
           (int f, a \<or> (\<exists>j>f. prefix_match lo cur j \<and> \<not> IDENTICAL_INTERPRETATION lo j f))"
  using assms(1,3,4)
proof (induction i rule: inc_induct)
  case base
  have "long_match_loop lo cur (current_argv_len_of cur) (Suc f) (int f) a =
          (int f, a \<or> (\<exists>j\<ge>Suc f. prefix_match lo cur j \<and>
             \<not> IDENTICAL_INTERPRETATION lo j (nat (int f))))"
    using base.prems(2) by (intro long_match_loop_matched) auto
  moreover have "(\<exists>j\<ge>Suc f. Q j) \<longleftrightarrow> (\<exists>j>f. Q j)" for Q
    by (auto simp: Suc_le_eq)
  moreover from base.prems(2) [of f] have "\<not> exact_match lo cur f" by simp
  moreover from assms(2) have "f < length lo" by (simp add: prefix_match_def)
  ultimately show ?case
    using assms(2) by (simp add: long_match_loop_step)
next
  case (step k)
  from step.hyps assms(2) have k: "k < length lo" by (simp add: prefix_match_def)
  from step.prems(1) [of k] step.hyps have "\<not> prefix_match lo cur k" by simp
  moreover have "long_match_loop lo cur (current_argv_len_of cur) (Suc k) (- 1) a =
           (int f, a \<or> (\<exists>j>f. prefix_match lo cur j \<and> \<not> IDENTICAL_INTERPRETATION lo j f))"
    using step.IH step.prems by simp
  ultimately show ?case
    using k by (simp add: long_match_loop_step)
qed

lemma long_match_loop_none:
  assumes "\<And>j. i \<le> j \<Longrightarrow> \<not> prefix_match lo cur j"
  shows "long_match_loop lo cur (current_argv_len_of cur) i m a = (m, a)"
  using assms
proof (induction "length lo - i" arbitrary: i)
  case 0
  then show ?case by (simp add: long_match_loop_end)
next
  case (Suc d)
  then have i: "i < length lo" by simp
  from Suc.prems [of i] have "\<not> prefix_match lo cur i" by simp
  moreover have "long_match_loop lo cur (current_argv_len_of cur) (Suc i) m a = (m, a)"
    using Suc.hyps(1) [of "Suc i"] Suc.hyps(2) Suc.prems by simp
  ultimately show ?case
    using i by (simp add: long_match_loop_step)
qed

lemma getopt_long_via_long_option:
  "getopt_internal p nargc options s = Inr (- 2, s1) \<Longrightarrow>
   getopt_long p nargc options lo idx s = long_option options lo idx s1"
  by (simp add: getopt_long_def)

lemma PRINT_ERROR_update [simp]:
  "PRINT_ERROR (s\<lparr>optind := i\<rparr>) options = PRINT_ERROR s options"
  "PRINT_ERROR (s\<lparr>place := pl\<rparr>) options = PRINT_ERROR s options"
  "PRINT_ERROR (s\<lparr>optarg := a\<rparr>) options = PRINT_ERROR s options"
  "PRINT_ERROR (s\<lparr>optopt := x\<rparr>) options = PRINT_ERROR s options"
  "PRINT_ERROR (s\<lparr>optreset := y\<rparr>) options = PRINT_ERROR s options"
  "PRINT_ERROR (s\<lparr>nonopt_start := ns\<rparr>) options = PRINT_ERROR s options"
  "PRINT_ERROR (s\<lparr>nonopt_end := ne\<rparr>) options = PRINT_ERROR s options"
  "PRINT_ERROR (s\<lparr>nargv := v\<rparr>) options = PRINT_ERROR s options"
  "PRINT_ERROR (s\<lparr>err_out := e\<rparr>) options = PRINT_ERROR s options"
  by (simp_all add: PRINT_ERROR_def)

lemma long_option_ambiguous:
  assumes "place s1 \<noteq> []"
    and "snd (long_match_loop lo (place s1) (current_argv_len_of (place s1)) 0 (- 1) False)"
  shows "\<exists>s'. long_option options lo idx s1 = Inr (BADCH, s') \<and> optopt s' = 0 \<and>
           (err_out s' \<noteq> err_out s1 \<longleftrightarrow> PRINT_ERROR s1 options)"
  using assms
  by (cases "PRINT_ERROR s1 options")
     (auto simp: long_option_def Let_def warnx_def split: prod.splits)

lemma long_option_unknown:
  assumes "place s1 \<noteq> []"
    and "long_match_loop lo (place s1) (current_argv_len_of (place s1)) 0 (- 1) False = (- 1, False)"
  shows "\<exists>s'. long_option options lo idx s1 = Inr (BADCH, s') \<and> optopt s' = 0 \<and>
           (err_out s' \<noteq> err_out s1 \<longleftrightarrow> PRINT_ERROR s1 options)"
  using assms
  by (cases "PRINT_ERROR s1 options")
     (auto simp: long_option_def Let_def warnx_def split: prod.splits)

lemma long_option_noarg:
  assumes "place s1 \<noteq> []"
    and "long_match_loop lo (place s1) (current_argv_len_of (place s1)) 0 (- 1) False = (int k, False)"
    and "has_arg (lo ! k) = no_argument" "has_equal_of (place s1) \<noteq> None"
  shows "\<exists>s'. long_option options lo idx s1 = Inr (BADARG options, s') \<and>
           optopt s' = (if flag (lo ! k) = None then val (lo ! k) else 0) \<and>
           (err_out s' \<noteq> err_out s1 \<longleftrightarrow> PRINT_ERROR s1 options)"
  using assms
  by (cases "PRINT_ERROR s1 options")
     (auto simp: long_option_def Let_def warnx_def split: prod.splits)

lemma long_option_missing:
  assumes "place s1 \<noteq> []"
    and "long_match_loop lo (place s1) (current_argv_len_of (place s1)) 0 (- 1) False = (int k, False)"
    and "has_arg (lo ! k) = required_argument" "has_equal_of (place s1) = None"
    and "argv_read (nargv s1) (optind s1 + 1) = Inr None"
  shows "\<exists>s'. long_option options lo idx s1 = Inr (BADARG options, s') \<and>
           optopt s' = (if flag (lo ! k) = None then val (lo ! k) else 0) \<and>
           optind s' = optind s1 + 1 \<and>
           (err_out s' \<noteq> err_out s1 \<longleftrightarrow> PRINT_ERROR s1 options)"
  using assms
  by (cases "PRINT_ERROR s1 options")
     (auto simp: long_option_def Let_def warnx_def split: prod.splits)

definition write_back :: "option_desc \<Rightarrow> addr option \<Rightarrow> int \<Rightarrow> (addr \<Rightarrow> int) \<Rightarrow> addr \<Rightarrow> int" where
  "write_back opt idx match m =
     (let m1 = (case flag opt of Some a \<Rightarrow> m(a := val opt) | None \<Rightarrow> m)
      in case idx of Some q \<Rightarrow> m1(q := match) | None \<Rightarrow> m1)"

lemma long_option_resolved:
  assumes "place s1 \<noteq> []"
    and "long_match_loop lo (place s1) (current_argv_len_of (place s1)) 0 (- 1) False = (int k, False)"
    and "has_arg (lo ! k) = no_argument \<longrightarrow> has_equal_of (place s1) = None"
    and "has_arg (lo ! k) = required_argument \<longrightarrow> has_equal_of (place s1) = None \<longrightarrow>
           argv_read (nargv s1) (optind s1 + 1) = Inr (Some a)"
  shows "\<exists>s'. long_option options lo idx s1 =
             Inr (case flag (lo ! k) of Some _ \<Rightarrow> 0 | None \<Rightarrow> val (lo ! k), s') \<and>
           mem s' = write_back (lo ! k) idx (int k) (mem s1) \<and>
           optarg s' = (case has_arg (lo ! k) of
                          no_argument \<Rightarrow> optarg s1
                        | required_argument \<Rightarrow>
                            (if has_equal_of (place s1) = None then Some a else has_equal_of (place s1))
                        | optional_argument \<Rightarrow>
                            (if has_equal_of (place s1) = None then optarg s1 else has_equal_of (place s1))) \<and>
           optind s' = (if has_arg (lo ! k) = required_argument \<and> has_equal_of (place s1) = None
                        then optind s1 + 2 else optind s1 + 1) \<and>
           nargv s' = nargv s1 \<and> place s' = [] \<and> optopt s' = optopt s1 \<and>
           err_out s' = err_out s1"
  using assms
  by (cases "has_arg (lo ! k)"; cases "flag (lo ! k)"; cases idx)
     (auto simp: long_option_def Let_def write_back_def split: prod.splits)


subsection \<open>Frame properties\<close>

lemma cycle_loop_length:
  "cycle_loop pe nn no cs cl j pos v = Inr v' \<Longrightarrow> length v' = length v"
proof (induction pe nn no cs cl j pos v rule: cycle_loop.induct)
  case (1 pe nn no cs cl j pos v)
  show ?case
  proof (cases "j < cl")
    case True
    with "1.prems" "1.IH" show ?thesis
      by (subst (asm) cycle_loop.simps) (auto simp: Let_def split: if_splits)
  next
    case False
    with "1.prems" show ?thesis by (subst (asm) cycle_loop.simps) simp
  qed
qed

lemma permute_loop_length:
  "permute_loop pe nn no cl nc i v = Inr v' \<Longrightarrow> length v' = length v"
proof (induction pe nn no cl nc i v rule: permute_loop.induct)
  case (1 pe nn no cl nc i v)
  show ?case
  proof (cases "i < nc")
    case True
    with "1.prems" "1.IH" show ?thesis
      by (subst (asm) permute_loop.simps) (auto split: sum.splits dest: cycle_loop_length)
  next
    case False
    with "1.prems" show ?thesis by (subst (asm) permute_loop.simps) simp
  qed
qed

lemma permute_args_length: "permute_args a b c v = Inr v' \<Longrightarrow> length v' = length v"
  by (auto simp: permute_args_def Let_def split: sum.splits if_splits dest: permute_loop_length)

lemma call_permute_args_frame:
  assumes "call_permute_args s = Inr s'"
  shows "optind s' = optind s" "nonopt_start s' = nonopt_start s" "nonopt_end s' = nonopt_end s"
    "mem s' = mem s" "opterr s' = opterr s" "optopt s' = optopt s" "err_out s' = err_out s"
    "optarg s' = optarg s" "place s' = place s" "optreset s' = optreset s"
    "length (nargv s') = length (nargv s)"
    "permute_calls s' = (nonopt_start s, nonopt_end s, optind s) # permute_calls s"
  using assms
  by (auto simp: call_permute_args_def split: sum.splits dest: permute_args_length)

lemma scan_step_frame:
  assumes "scan_step p nargc options s = Inr (c, s')"
  shows "mem s' = mem s" "opterr s' = opterr s" "optopt s' = optopt s"
    "err_out s' = err_out s" "length (nargv s') = length (nargv s)"
    "c \<noteq> Return INORDER \<Longrightarrow> optarg s' = optarg s"
  using assms
  by (auto simp: scan_step_def end_of_vector_def found_non_option_def found_option_def Let_def
           call_permute_args_frame split: if_splits sum.splits option.splits)

lemma start_loop_induct [consumes 1, case_names stop goto]:
  assumes "start_loop p nargc options s = Inr (c, s')"
    and "\<And>s. scan_step p nargc options s = Inr (c, s') \<Longrightarrow> c \<noteq> Goto_start \<Longrightarrow> P s"
    and "\<And>s t. scan_step p nargc options s = Inr (Goto_start, t) \<Longrightarrow>
            start_loop p nargc options t = Inr (c, s') \<Longrightarrow> P t \<Longrightarrow> P s"
  shows "P s"
  using assms
proof (induction p nargc options s rule: start_loop.induct)
  case (1 p nargc options s)
  note run = "1.prems"(1) and stop = "1.prems"(2) and goto = "1.prems"(3)
  from run obtain c1 s1 where st: "scan_step p nargc options s = Inr (c1, s1)"
    by (subst (asm) start_loop.simps) (auto split: sum.splits)
  show ?case
  proof (cases "c1 = Goto_start")
    case True
    with st run have sl: "start_loop p nargc options s1 = Inr (c, s')"
      by (subst (asm) start_loop.simps) simp
    from st True have st': "scan_step p nargc options s = Inr (Goto_start, s1)" by simp
    have "P s1" by (rule "1.IH" [OF st refl True sl stop goto])
    then show ?thesis by (rule goto [OF st' sl])
  next
    case False
    with st run have "c1 = c" "s1 = s'"
      by (subst (asm) start_loop.simps, simp)+
    with st False show ?thesis by (intro stop) simp_all
  qed
qed

lemma start_loop_not_goto: "start_loop p nargc options s = Inr (c, s') \<Longrightarrow> c \<noteq> Goto_start"
  by (induction rule: start_loop_induct) auto

lemma start_loop_frame:
  assumes "start_loop p nargc options s = Inr (c, s')"
  shows "mem s' = mem s \<and> opterr s' = opterr s \<and> optopt s' = optopt s \<and>
     err_out s' = err_out s \<and> length (nargv s') = length (nargv s) \<and>
     (c \<noteq> Return INORDER \<longrightarrow> optarg s' = optarg s)"
  using assms
proof (induction rule: start_loop_induct)
  case (stop s)
  then show ?case by (auto dest: scan_step_frame)
next
  case (goto s t)
  from scan_step_frame [OF goto(1)] goto(3) show ?case by simp
qed

lemma option_letter_frame:
  assumes "option_letter nargc options s = Inr (r, s')"
  shows "mem s' = mem s" "opterr s' = opterr s" "nargv s' = nargv s"
    "nonopt_start s' = nonopt_start s" "nonopt_end s' = nonopt_end s"
    "permute_calls s' = permute_calls s" "optreset s' = optreset s"
    "r = - 2 \<Longrightarrow> optopt s' = optopt s \<and> err_out s' = err_out s \<and>
       (place s' \<noteq> [] \<longrightarrow> optarg s' = optarg s)"
  using assms
  by (auto simp: option_letter_def Let_def warnx_def
           split: if_splits sum.splits option.splits)

lemma getopt_internal_frame:
  assumes "getopt_internal p nargc options s = Inr (r, s')"
  shows "mem s' = mem s" "opterr s' = opterr s" "length (nargv s') = length (nargv s)"
    "r = - 2 \<Longrightarrow> optopt s' = optopt s \<and> err_out s' = err_out s \<and>
       (place s' \<noteq> [] \<longrightarrow> optarg s' = None)"
proof -
  let ?s0 = "enter s"
  have s0: "mem ?s0 = mem s" "opterr ?s0 = opterr s" "nargv ?s0 = nargv s" "optarg ?s0 = None"
    "optopt ?s0 = optopt s" "err_out ?s0 = err_out s"
    by (simp_all add: enter_def Let_def)
  from assms obtain c s1 where sl: "start_loop p nargc options ?s0 = Inr (c, s1)"
    and r: "(c = Return r \<and> s' = s1) \<or> ((\<forall>x. c \<noteq> Return x) \<and> option_letter nargc options s1 = Inr (r, s'))"
    unfolding getopt_internal_def
    by (auto split: sum.splits control.splits)
  note fr = start_loop_frame [OF sl]
  have inord: "Return INORDER \<noteq> Return (- 2)" by (simp add: INORDER_def)
  show "mem s' = mem s" "opterr s' = opterr s" "length (nargv s') = length (nargv s)"
    using r fr s0 by (auto dest: option_letter_frame)
  show "optopt s' = optopt s \<and> err_out s' = err_out s \<and> (place s' \<noteq> [] \<longrightarrow> optarg s' = None)"
    if "r = - 2"
    using r fr s0 that inord by (auto dest: option_letter_frame(8))
qed


subsection \<open>Rules for the scanning loop\<close>

lemma start_loop_unfold:
  "scan_step p nargc options s = Inl f \<Longrightarrow> start_loop p nargc options s = Inl f"
  "scan_step p nargc options s = Inr (Goto_start, t) \<Longrightarrow>
     start_loop p nargc options s = start_loop p nargc options t"
  "scan_step p nargc options s = Inr (c, t) \<Longrightarrow> c \<noteq> Goto_start \<Longrightarrow>
     start_loop p nargc options s = Inr (c, t)"
  by (subst start_loop.simps, simp)+

lemma start_loop_wf_induct [case_names step]:
  assumes "\<And>s. (\<And>t. scan_step p nargc options s = Inr (Goto_start, t) \<Longrightarrow> P t) \<Longrightarrow> P s"
  shows "P s"
  using assms
proof (induction p nargc options s rule: start_loop.induct)
  case (1 p nargc options s)
  show ?case
  proof (rule "1.prems")
    fix t assume st: "scan_step p nargc options s = Inr (Goto_start, t)"
    show "P t" by (rule "1.IH" [OF st refl refl "1.prems"])
  qed
qed

lemma start_loop_rule:
  assumes J: "J s"
    and step: "\<And>t u. J t \<Longrightarrow> scan_step p nargc options t = Inr (Goto_start, u) \<Longrightarrow> J u"
    and fin: "\<And>t c u. J t \<Longrightarrow> scan_step p nargc options t = Inr (c, u) \<Longrightarrow>
                c \<noteq> Goto_start \<Longrightarrow> Q c u"
    and run: "start_loop p nargc options s = Inr (c, s')"
  shows "Q c s'"
  using J run
proof (induction s rule: start_loop_wf_induct [where p = p and nargc = nargc and options = options])
  case (step s)
  show ?case
  proof (cases "scan_step p nargc options s")
    case (Inl f)
    with step.prems(2) show ?thesis by (simp add: start_loop_unfold(1))
  next
    case (Inr x)
    obtain c1 t where x: "x = (c1, t)" by (cases x)
    show ?thesis
    proof (cases "c1 = Goto_start")
      case True
      with Inr x have st: "scan_step p nargc options s = Inr (Goto_start, t)" by simp
      from step.prems(2) have "start_loop p nargc options t = Inr (c, s')"
        by (simp add: start_loop_unfold(2) [OF st])
      with step.IH [OF st] assms(2) [OF step.prems(1) st] show ?thesis by simp
    next
      case False
      with Inr x have st: "scan_step p nargc options s = Inr (c1, t)" by simp
      from step.prems(2) have "c1 = c" "t = s'"
        by (simp_all add: start_loop_unfold(3) [OF st False])
      with fin [OF step.prems(1) st False] show ?thesis by simp
    qed
  qed
qed

lemma start_loop_fault_rule:
  assumes J: "J s"
    and step: "\<And>t u. J t \<Longrightarrow> scan_step p nargc options t = Inr (Goto_start, u) \<Longrightarrow> J u"
    and flt: "\<And>t f. J t \<Longrightarrow> scan_step p nargc options t = Inl f \<Longrightarrow> F f"
    and run: "start_loop p nargc options s = Inl f"
  shows "F f"
  using J run
proof (induction s rule: start_loop_wf_induct [where p = p and nargc = nargc and options = options])
  case (step s)
  show ?case
  proof (cases "scan_step p nargc options s")
    case (Inl g)
    with step.prems(2) have "g = f" by (simp add: start_loop_unfold(1))
    with flt [OF step.prems(1) Inl] show ?thesis by simp
  next
    case (Inr x)
    obtain c1 t where x: "x = (c1, t)" by (cases x)
    show ?thesis
    proof (cases "c1 = Goto_start")
      case True
      with Inr x have st: "scan_step p nargc options s = Inr (Goto_start, t)" by simp
      from step.prems(2) have "start_loop p nargc options t = Inl f"
        by (simp add: start_loop_unfold(2) [OF st])
      with step.IH [OF st] assms(2) [OF step.prems(1) st] show ?thesis by simp
    next
      case False
      with Inr x have st: "scan_step p nargc options s = Inr (c1, t)" by simp
      with step.prems(2) show ?thesis by (simp add: start_loop_unfold(3) [OF st False])
    qed
  qed
qed

lemma call_permute_args_Inr:
  "call_permute_args s = Inr s' \<longleftrightarrow>
   (\<exists>v. permute_args (nonopt_start s) (nonopt_end s) (optind s) (nargv s) = Inr v \<and>
        s' = s\<lparr>nargv := v,
                permute_calls := (nonopt_start s, nonopt_end s, optind s) # permute_calls s\<rparr>)"
  by (auto simp: call_permute_args_def split: sum.splits)

lemma end_of_vector_Inr:
  assumes "end_of_vector t = Inr (c, u)"
  shows "c = Return (- 1) \<and> place u = [] \<and> nonopt_start u = - 1 \<and> nonopt_end u = - 1 \<and>
         optreset u = optreset t \<and> optarg u = optarg t \<and>
         (if nonopt_end t \<noteq> - 1 then
            permute_args (nonopt_start t) (nonopt_end t) (optind t) (nargv t) = Inr (nargv u) \<and>
            permute_calls u = (nonopt_start t, nonopt_end t, optind t) # permute_calls t \<and>
            optind u = optind t - (nonopt_end t - nonopt_start t)
          else
            nargv u = nargv t \<and> permute_calls u = permute_calls t \<and>
            optind u = (if nonopt_start t \<noteq> - 1 then nonopt_start t else optind t))"
  using assms
  by (auto simp: end_of_vector_def Let_def call_permute_args_Inr split: if_splits sum.splits)

lemma found_option_Inr:
  assumes "found_option tok t = Inr (c, u)"
  shows "(c = Return (- 2) \<and> deref (tl tok) = CHR ''-'' \<and> place u = tl (tl tok) \<or>
          c = Fall_through \<and> deref (tl tok) \<noteq> CHR ''-'' \<and> place u = tl tok) \<and>
         optind u = optind t \<and> nargv u = nargv t \<and> permute_calls u = permute_calls t \<and>
         optreset u = optreset t \<and> optarg u = optarg t \<and>
         nonopt_start u = nonopt_start t \<and>
         nonopt_end u = (if nonopt_start t \<noteq> - 1 \<and> nonopt_end t = - 1 then optind t
                         else nonopt_end t)"
  using assms
  by (auto simp: found_option_def Let_def split: if_splits)

lemma found_non_option_Inr:
  assumes "found_non_option p options tok t = Inr (c, u)"
  shows "place u = [] \<and> optreset u = optreset t \<and>
         (if IN_ORDER p options then
            c = Return INORDER \<and> optind u = optind t + 1 \<and> optarg u = Some tok \<and>
            nargv u = nargv t \<and> permute_calls u = permute_calls t \<and>
            nonopt_start u = nonopt_start t \<and> nonopt_end u = nonopt_end t
          else if \<not> PERMUTE p options then
            c = Return (- 1) \<and> optind u = optind t \<and> optarg u = optarg t \<and>
            nargv u = nargv t \<and> permute_calls u = permute_calls t \<and>
            nonopt_start u = nonopt_start t \<and> nonopt_end u = nonopt_end t
          else
            c = Goto_start \<and> optind u = optind t + 1 \<and> optarg u = optarg t \<and>
            nonopt_end u = (if nonopt_start t = - 1 then nonopt_end t else - 1) \<and>
            (if nonopt_start t \<noteq> - 1 \<and> nonopt_end t \<noteq> - 1 then
               permute_args (nonopt_start t) (nonopt_end t) (optind t) (nargv t) = Inr (nargv u) \<and>
               permute_calls u = (nonopt_start t, nonopt_end t, optind t) # permute_calls t \<and>
               nonopt_start u = optind t - (nonopt_end t - nonopt_start t)
             else
               nargv u = nargv t \<and> permute_calls u = permute_calls t \<and>
               nonopt_start u = (if nonopt_start t = - 1 then optind t else nonopt_start t) \<and>
               (nonopt_start t = - 1 \<or> nonopt_end t = - 1)))"
  using assms
  by (auto simp: found_non_option_def Let_def call_permute_args_Inr split: if_splits sum.splits)


lemma scan_step_Inr:
  assumes "scan_step p nargc options t = Inr (c, u)"
  shows "(optreset t = 0 \<and> place t \<noteq> [] \<and> c = Fall_through \<and> u = t) \<or>
         ((optreset t \<noteq> 0 \<or> place t = []) \<and> nargc \<le> optind t \<and>
            end_of_vector (t\<lparr>optreset := 0\<rparr>) = Inr (c, u)) \<or>
         ((optreset t \<noteq> 0 \<or> place t = []) \<and> optind t < nargc \<and>
            (\<exists>tok. argv_read (nargv t) (optind t) = Inr (Some tok) \<and>
               (if deref tok \<noteq> CHR ''-'' \<or> tl tok = []
                then found_non_option p options tok (t\<lparr>optreset := 0\<rparr>) = Inr (c, u)
                else found_option tok (t\<lparr>optreset := 0\<rparr>) = Inr (c, u))))"
  using assms
  by (auto simp: scan_step_def Let_def split: if_splits sum.splits option.splits)

lemma scan_stepE [consumes 1, case_names fall end_of_vector non_option option]:
  assumes "scan_step p nargc options t = Inr (c, u)"
  obtains
    (fall) "optreset t = 0" "place t \<noteq> []" "c = Fall_through" "u = t"
  | (end_of_vector) "optreset t \<noteq> 0 \<or> place t = []" "nargc \<le> optind t"
      "end_of_vector (t\<lparr>optreset := 0\<rparr>) = Inr (c, u)"
  | (non_option) tok where "optreset t \<noteq> 0 \<or> place t = []" "optind t < nargc"
      "argv_read (nargv t) (optind t) = Inr (Some tok)" "deref tok \<noteq> CHR ''-'' \<or> tl tok = []"
      "found_non_option p options tok (t\<lparr>optreset := 0\<rparr>) = Inr (c, u)"
  | (option) tok where "optreset t \<noteq> 0 \<or> place t = []" "optind t < nargc"
      "argv_read (nargv t) (optind t) = Inr (Some tok)" "deref tok = CHR ''-''" "tl tok \<noteq> []"
      "found_option tok (t\<lparr>optreset := 0\<rparr>) = Inr (c, u)"
proof -
  from scan_step_Inr [OF assms] consider
      (a) "optreset t = 0 \<and> place t \<noteq> [] \<and> c = Fall_through \<and> u = t"
    | (b) "(optreset t \<noteq> 0 \<or> place t = []) \<and> nargc \<le> optind t \<and>
            end_of_vector (t\<lparr>optreset := 0\<rparr>) = Inr (c, u)"
    | (c) "(optreset t \<noteq> 0 \<or> place t = []) \<and> optind t < nargc \<and>
            (\<exists>tok. argv_read (nargv t) (optind t) = Inr (Some tok) \<and>
               (if deref tok \<noteq> CHR ''-'' \<or> tl tok = []
                then found_non_option p options tok (t\<lparr>optreset := 0\<rparr>) = Inr (c, u)
                else found_option tok (t\<lparr>optreset := 0\<rparr>) = Inr (c, u)))"
    by blast
  then show ?thesis
  proof cases
    case a
    then show ?thesis by (intro fall) simp_all
  next
    case b
    then show ?thesis by (intro end_of_vector) simp_all
  next
    case c
    then obtain tok where h: "optreset t \<noteq> 0 \<or> place t = []" "optind t < nargc"
      "argv_read (nargv t) (optind t) = Inr (Some tok)"
      "if deref tok \<noteq> CHR ''-'' \<or> tl tok = []
       then found_non_option p options tok (t\<lparr>optreset := 0\<rparr>) = Inr (c, u)
       else found_option tok (t\<lparr>optreset := 0\<rparr>) = Inr (c, u)"
      by blast
    show ?thesis
    proof (cases "deref tok \<noteq> CHR ''-'' \<or> tl tok = []")
      case True
      with h show ?thesis by (intro non_option [of tok]) simp_all
    next
      case False
      with h show ?thesis by (intro option [of tok]) simp_all
    qed
  qed
qed

subsection \<open>Arriving at an option letter\<close>

text \<open>
  \<open>scan_to_letter p nargc options s\<close> runs the part of a call that precedes the
  option-letter code (lines 197 to 272: the entry assignments and the loop at \<open>start\<close>,
  which may skip and permute operands).  It is \<open>Some (c, rest, u)\<close> when that part falls
  through to the option-letter code in the state \<open>u\<close> with \<open>place\<close> at the letter \<open>c\<close>
  followed by \<open>rest\<close> in the same token, and \<open>None\<close> when the call returns earlier.  Every
  run of the option-letter code starts this way.  \<open>scan_to_letter_token\<close> says what \<open>u\<close>
  is: either the call continued a cluster of letters, or \<open>optind\<close> is at a token \<open>-c rest\<close>
  below \<open>nargc\<close>.  Conversely (\<open>scan_to_letter_cluster\<close>, \<open>scan_to_letter_behind_operands\<close>,
  at the end of the theory) a call inside a cluster arrives at its next letter, and with
  permutation on a call arrives at the letter of the first option token behind any number
  of operands.
\<close>

definition scan_to_letter ::
  "bool \<Rightarrow> int \<Rightarrow> string \<Rightarrow> scanner \<Rightarrow> (char \<times> string \<times> scanner) option" where
  "scan_to_letter p nargc options s =
     (case start_loop p nargc options (enter s) of
        Inl f \<Rightarrow> None
      | Inr (ctl, u) \<Rightarrow>
          if ctl = Fall_through
          then (case place u of [] \<Rightarrow> None | c # rest \<Rightarrow> Some (c, rest, u))
          else None)"

lemma scan_to_letterD:
  assumes "scan_to_letter p nargc options s = Some (c, rest, u)"
  shows "start_loop p nargc options (enter s) = Inr (Fall_through, u)"
    and "place u = c # rest"
    and "getopt_internal p nargc options s = option_letter nargc options u"
proof -
  from assms show 1: "start_loop p nargc options (enter s) = Inr (Fall_through, u)"
    and "place u = c # rest"
    by (auto simp: scan_to_letter_def split: sum.splits if_splits list.splits)
  from 1 show "getopt_internal p nargc options s = option_letter nargc options u"
    by (simp add: getopt_internal_def)
qed

lemma scan_to_letter_frame:
  assumes "scan_to_letter p nargc options s = Some (c, rest, u)"
  shows "err_out u = err_out s" "opterr u = opterr s" "mem u = mem s" "optarg u = None"
    "optopt u = optopt s" "PRINT_ERROR u options = PRINT_ERROR s options"
proof -
  have e: "mem (enter s) = mem s" "opterr (enter s) = opterr s" "optarg (enter s) = None"
    "optopt (enter s) = optopt s" "err_out (enter s) = err_out s"
    by (simp_all add: enter_def Let_def)
  have "Fall_through \<noteq> Return INORDER" by simp
  with start_loop_frame [OF scan_to_letterD(1) [OF assms]] e
  show "err_out u = err_out s" "opterr u = opterr s" "mem u = mem s" "optarg u = None"
    "optopt u = optopt s"
    by simp_all
  then show "PRINT_ERROR u options = PRINT_ERROR s options" by (simp add: PRINT_ERROR_def)
qed

lemma scan_to_letter_token:
  assumes "scan_to_letter p nargc options s = Some (c, rest, u)"
  shows "(optreset s = 0 \<and> place s = c # rest \<and> u = enter s) \<or>
         (0 \<le> optind u \<and> optind u < nargc \<and> optind u < int (length (nargv u)) \<and>
          nargv u ! nat (optind u) = CHR ''-'' # c # rest \<and> c \<noteq> CHR ''-'' \<and> optreset u = 0)"
proof -
  note d = scan_to_letterD [OF assms]
  let ?J = "\<lambda>t. t = enter s \<or> place t = []"
  let ?Q = "\<lambda>ctl u. ctl = Fall_through \<longrightarrow>
     (optreset s = 0 \<and> place s = place u \<and> u = enter s) \<or>
     (0 \<le> optind u \<and> optind u < nargc \<and> optind u < int (length (nargv u)) \<and>
      nargv u ! nat (optind u) = CHR ''-'' # place u \<and> deref (place u) \<noteq> CHR ''-'' \<and>
      optreset u = 0)"
  have j: "?J (enter s)" by simp
  have step: "?J u" if "?J t" "scan_step p nargc options t = Inr (Goto_start, u)" for t u
    using that(2)
  proof (cases rule: scan_stepE)
    case (non_option tok)
    from found_non_option_Inr [OF non_option(5)] show ?thesis by simp
  qed (auto dest: end_of_vector_Inr found_option_Inr)
  have fin: "?Q ctl u" if "?J t" "scan_step p nargc options t = Inr (ctl, u)"
    "ctl \<noteq> Goto_start" for t ctl u
    using that(2)
  proof (cases rule: scan_stepE)
    case fall
    with that(1) have "t = enter s" by auto
    with fall show ?thesis by (auto simp: enter_def Let_def split: if_splits)
  next
    case end_of_vector
    from end_of_vector_Inr [OF end_of_vector(3)] show ?thesis by simp
  next
    case (non_option tok)
    from found_non_option_Inr [OF non_option(5)] that(3) show ?thesis
      by (auto split: if_splits simp: INORDER_def)
  next
    case (option tok)
    note e = found_option_Inr [OF option(6)]
    from option(3) have tk: "0 \<le> optind t" "optind t < int (length (nargv t))"
      "nargv t ! nat (optind t) = tok"
      by (auto simp: argv_read_def split: if_splits)
    from option(4,5) have tok: "tok = CHR ''-'' # tl tok" by (cases tok) auto
    show ?thesis
    proof
      assume "ctl = Fall_through"
      with e have "deref (tl tok) \<noteq> CHR ''-''" "place u = tl tok" "optind u = optind t"
        "nargv u = nargv t" "optreset u = 0"
        by auto
      with tk tok option(2) show "(optreset s = 0 \<and> place s = place u \<and> u = enter s) \<or>
         (0 \<le> optind u \<and> optind u < nargc \<and> optind u < int (length (nargv u)) \<and>
          nargv u ! nat (optind u) = CHR ''-'' # place u \<and> deref (place u) \<noteq> CHR ''-'' \<and>
          optreset u = 0)"
        by simp
    qed
  qed
  from start_loop_rule [where J = ?J and Q = ?Q, OF j step fin d(1)] d(2)
  show ?thesis by auto
qed

subsection \<open>The option-letter code\<close>

lemma option_letter_unknown:
  assumes "place s = c # rest" and "short_arity options c = None"
  shows "\<exists>s'. option_letter nargc options s = Inr (BADCH, s') \<and> optopt s' = ord c \<and>
           (err_out s' \<noteq> err_out s \<longleftrightarrow> PRINT_ERROR s options)"
proof -
  from assms(2) have "c = CHR '':'' \<or>
      strchr (if IGNORE_FIRST options then tl options else options) c = None"
    by (simp only: short_arity_None)
  with assms(1) show ?thesis
    by (cases "PRINT_ERROR s options") (simp_all add: option_letter_def Let_def warnx_def)
qed

lemma option_letter_missing:
  assumes "place s = [c]" and "short_arity options c = Some required_argument \<or> W_escape options c"
    and "nargc \<le> optind s + 1"
  shows "\<exists>s'. option_letter nargc options s = Inr (BADARG options, s') \<and> optopt s' = ord c \<and>
           (err_out s' \<noteq> err_out s \<longleftrightarrow> PRINT_ERROR s options)"
proof -
  have "\<exists>oli. c \<noteq> CHR '':'' \<and>
      strchr (if IGNORE_FIRST options then tl options else options) c = Some oli \<and>
      ((deref (tl oli) = CHR '':'' \<and> deref (tl (tl oli)) \<noteq> CHR '':'') \<or>
       (c = CHR ''W'' \<and> deref (tl oli) = CHR '';''))"
    using assms(2)
  proof
    assume "short_arity options c = Some required_argument"
    from short_arityD [OF this] show ?thesis by auto
  next
    assume "W_escape options c"
    then show ?thesis by (auto simp: W_escape_def split: option.splits)
  qed
  then obtain oli where c: "c \<noteq> CHR '':''"
    and oli: "strchr (if IGNORE_FIRST options then tl options else options) c = Some oli"
    and k: "(deref (tl oli) = CHR '':'' \<and> deref (tl (tl oli)) \<noteq> CHR '':'') \<or>
            (c = CHR ''W'' \<and> deref (tl oli) = CHR '';'')"
    by blast
  from k have k': "c = CHR ''W'' \<and> deref (tl oli) = CHR '';'' \<or>
     \<not> (c = CHR ''W'' \<and> deref (tl oli) = CHR '';'') \<and>
       deref (tl oli) = CHR '':'' \<and> deref (tl (tl oli)) \<noteq> CHR '':''"
    by auto
  from k' show ?thesis
  proof
    assume "c = CHR ''W'' \<and> deref (tl oli) = CHR '';''"
    with assms(1,3) oli show ?thesis
      by (cases "PRINT_ERROR s options") (simp_all add: option_letter_def Let_def warnx_def)
  next
    assume "\<not> (c = CHR ''W'' \<and> deref (tl oli) = CHR '';'') \<and>
       deref (tl oli) = CHR '':'' \<and> deref (tl (tl oli)) \<noteq> CHR '':''"
    with assms(1,3) oli c show ?thesis
      by (cases "PRINT_ERROR s options") (simp_all add: option_letter_def Let_def warnx_def)
  qed
qed




text \<open>
  What \<open>getopt_long\<close> makes of the return of \<open>getopt_internal\<close>.  Any value but \<open>-2\<close> is
  handed on.  When \<open>-2\<close> comes with nothing left in the token, the code of lines 420 to 437
  takes it for the \<open>--\<close> terminator: it returns \<open>-1\<close> and leaves \<open>optarg\<close> alone.  The byte
  \<open>0xFE\<close> as a declared letter arrives there, its \<open>int\<close> value being \<open>-2\<close>.
\<close>

lemma long_option_terminator:
  assumes "long_option options lo idx s1 = Inr (r, s')" and "place s1 = []"
  shows "r = - 1" "optarg s' = optarg s1" "place s' = []"
  using assms
  by (auto simp: long_option_def Let_def call_permute_args_Inr split: if_splits sum.splits)

lemma getopt_long_hands_on:
  assumes "getopt_internal p nargc options s = Inr (r1, s1)"
  shows "r1 \<noteq> - 2 \<Longrightarrow> getopt_long p nargc options lo idx s = Inr (r1, s1)"
    and "place s1 = [] \<Longrightarrow> getopt_long p nargc options lo idx s = Inr (r, s') \<Longrightarrow>
           r = (if r1 = - 2 then - 1 else r1) \<and> optarg s' = optarg s1"
proof -
  show "getopt_long p nargc options lo idx s = Inr (r1, s1)" if "r1 \<noteq> - 2"
    using assms that by (simp add: getopt_long_def)
  show "r = (if r1 = - 2 then - 1 else r1) \<and> optarg s' = optarg s1"
    if "place s1 = []" "getopt_long p nargc options lo idx s = Inr (r, s')"
  proof (cases "r1 = - 2")
    case True
    with assms that(2) have "long_option options lo idx s1 = Inr (r, s')"
      by (simp add: getopt_long_def)
    from long_option_terminator(1,2) [OF this that(1)] True show ?thesis by simp
  next
    case False
    with assms that(2) show ?thesis by (simp add: getopt_long_def)
  qed
qed

subsection \<open>Observations used in closed statements\<close>

text \<open>
  \<open>getopt_long_calls n\<close> is the caller's loop: \<open>n\<close> successive calls on the same inputs,
  each on the state the previous one left.
\<close>

definition zero_mem :: "addr \<Rightarrow> int" where
  "zero_mem = (\<lambda>_. 0)"

definition ret_optopt :: "fault + (int \<times> scanner) \<Rightarrow> (int \<times> int) option" where
  "ret_optopt res = (case res of Inl f \<Rightarrow> None | Inr (r, s) \<Rightarrow> Some (r, optopt s))"

definition ret_optarg :: "fault + (int \<times> scanner) \<Rightarrow> (int \<times> string option) option" where
  "ret_optarg res = (case res of Inl f \<Rightarrow> None | Inr (r, s) \<Rightarrow> Some (r, optarg s))"



definition vv_table :: "option_desc list" where
  "vv_table = [\<lparr>name = ''verbose'', has_arg = no_argument, flag = None, val = 1\<rparr>,
               \<lparr>name = ''version'', has_arg = no_argument, flag = None, val = 2\<rparr>]"

text \<open>
  C8, as stated, fails for long options: an unknown long option and an ambiguous
  abbreviation both return \<open>BADCH\<close> with \<open>optopt = 0\<close>, so neither the name nor any of its
  characters is captured.
\<close>

theorem optopt_long_counterexample:
  "ret_optopt (getopt_long False 2 ''a'' vv_table None (initial [''prog'', ''--foo''] zero_mem))
     = Some (BADCH, 0) \<and>
   ret_optopt (getopt_long False 2 ''a'' vv_table None (initial [''prog'', ''--ver''] zero_mem))
     = Some (BADCH, 0)"
  by code_simp



subsection \<open>The matcher as the specification words it\<close>

text \<open>
  \<open>spec_match lo key\<close> follows the specification, not the code: an entry whose name
  equals the text is selected when there is one (the first such); otherwise the entries
  that the text is a prefix of are looked at: none is \<open>Unknown\<close>, two that differ in arity,
  flag pointer or value are \<open>Ambiguous\<close>, and else the first of them is selected.
\<close>

datatype selection = Selected nat | Ambiguous | Unknown

fun first_index :: "('a \<Rightarrow> bool) \<Rightarrow> 'a list \<Rightarrow> nat option" where
  "first_index P [] = None"
| "first_index P (x # xs) = (if P x then Some 0 else map_option Suc (first_index P xs))"

definition differ :: "option_desc \<Rightarrow> option_desc \<Rightarrow> bool" where
  "differ x y = (has_arg x \<noteq> has_arg y \<or> flag x \<noteq> flag y \<or> val x \<noteq> val y)"

definition spec_match :: "option_desc list \<Rightarrow> string \<Rightarrow> selection" where
  "spec_match lo key =
     (case first_index (\<lambda>e. name e = key) lo of
        Some k \<Rightarrow> Selected k
      | None \<Rightarrow>
          (case first_index (\<lambda>e. prefix key (name e)) lo of
             None \<Rightarrow> Unknown
           | Some f \<Rightarrow>
               if \<exists>x\<in>set lo. \<exists>y\<in>set lo.
                    prefix key (name x) \<and> prefix key (name y) \<and> differ x y
               then Ambiguous else Selected f))"

lemma first_index_Some_iff:
  "first_index P xs = Some k \<longleftrightarrow> k < length xs \<and> P (xs ! k) \<and> (\<forall>j<k. \<not> P (xs ! j))"
proof (induction xs arbitrary: k)
  case Nil
  show ?case by simp
next
  case (Cons x xs)
  show ?case
  proof (cases "P x")
    case True
    then show ?thesis by (cases k) auto
  next
    case False
    show ?thesis
    proof (cases k)
      case 0
      with False show ?thesis by auto
    next
      case (Suc m)
      have "(\<forall>j<Suc m. \<not> P ((x # xs) ! j)) \<longleftrightarrow> (\<forall>j<m. \<not> P (xs ! j))"
        using False by (auto simp: less_Suc_eq_0_disj)
      with False Suc Cons.IH [of m] show ?thesis by auto
    qed
  qed
qed

lemma first_index_None_iff: "first_index P xs = None \<longleftrightarrow> (\<forall>x\<in>set xs. \<not> P x)"
  by (induction xs) auto

lemma cut_at_equal:
  assumes "CHR ''='' \<notin> set key" and "eqv = [] \<or> hd eqv = CHR ''=''"
  shows "current_argv_len_of (key @ eqv) = length key"
    and "long_text (key @ eqv) = key"
    and "has_equal_of (key @ eqv) = (if eqv = [] then None else Some (tl eqv))"
proof -
  have s: "strchr (key @ eqv) CHR ''='' = (if eqv = [] then None else Some eqv)"
  proof (cases eqv)
    case Nil
    with assms(1) show ?thesis by (simp add: strchr_None)
  next
    case (Cons e v)
    with assms(2) have "eqv = CHR ''='' # v" by simp
    with strchr_append [OF assms(1), of v] show ?thesis by simp
  qed
  then show l: "current_argv_len_of (key @ eqv) = length key"
    by (simp add: current_argv_len_of_def)
  then show "long_text (key @ eqv) = key" by (simp add: long_text_def)
  from s show "has_equal_of (key @ eqv) = (if eqv = [] then None else Some (tl eqv))"
    by (simp add: has_equal_of_def)
qed

lemma in_set_names_iff: "t \<in> name ` set lo \<longleftrightarrow> (\<exists>e<length lo. name (lo ! e) = t)"
  by (auto simp: in_set_conv_nth image_iff intro: nth_mem)

lemma long_match_loop_result:
  fixes lo cur
  defines "LOOP \<equiv> long_match_loop lo cur (current_argv_len_of cur) 0 (- 1) False"
  shows "(\<exists>e. exact_match lo cur e) \<Longrightarrow>
           \<exists>e. exact_match lo cur e \<and> (\<forall>j<e. \<not> exact_match lo cur j) \<and> LOOP = (int e, False)"
    and "\<not> (\<exists>e. exact_match lo cur e) \<Longrightarrow> \<not> (\<exists>f. prefix_match lo cur f) \<Longrightarrow> LOOP = (- 1, False)"
    and "\<not> (\<exists>e. exact_match lo cur e) \<Longrightarrow> prefix_match lo cur f \<Longrightarrow>
           \<forall>j<f. \<not> prefix_match lo cur j \<Longrightarrow>
           LOOP = (int f, \<exists>j>f. prefix_match lo cur j \<and> \<not> IDENTICAL_INTERPRETATION lo j f)"
proof -
  show "\<exists>e. exact_match lo cur e \<and> (\<forall>j<e. \<not> exact_match lo cur j) \<and> LOOP = (int e, False)"
    if "\<exists>e. exact_match lo cur e"
  proof -
    from that obtain e where e: "exact_match lo cur e" "\<forall>j<e. \<not> exact_match lo cur j"
      by (auto simp: exists_least_iff [of "exact_match lo cur"])
    then have "LOOP = (int e, False)"
      unfolding LOOP_def by (intro long_match_loop_exact) auto
    with e show ?thesis by blast
  qed
  show "LOOP = (- 1, False)"
    if "\<not> (\<exists>e. exact_match lo cur e)" "\<not> (\<exists>f. prefix_match lo cur f)"
    using that unfolding LOOP_def by (intro long_match_loop_none) auto
  show "LOOP = (int f, \<exists>j>f. prefix_match lo cur j \<and> \<not> IDENTICAL_INTERPRETATION lo j f)"
    if "\<not> (\<exists>e. exact_match lo cur e)" "prefix_match lo cur f" "\<forall>j<f. \<not> prefix_match lo cur j"
    using that unfolding LOOP_def
    using long_match_loop_first [of 0 f lo cur False] by auto
qed

lemma ambiguous_iff:
  assumes "prefix_match lo cur f" "\<forall>j<f. \<not> prefix_match lo cur j"
  shows "(\<exists>j>f. prefix_match lo cur j \<and> \<not> IDENTICAL_INTERPRETATION lo j f) \<longleftrightarrow>
         (\<exists>x\<in>set lo. \<exists>y\<in>set lo. prefix (long_text cur) (name x) \<and> prefix (long_text cur) (name y) \<and>
            \<not> (has_arg x = has_arg y \<and> flag x = flag y \<and> val x = val y))"
    (is "?L \<longleftrightarrow> ?R")
proof
  assume ?L
  then obtain j where j: "j > f" "prefix_match lo cur j" "\<not> IDENTICAL_INTERPRETATION lo j f"
    by blast
  with assms(1) have "lo ! j \<in> set lo" "lo ! f \<in> set lo"
    by (simp_all add: prefix_match_def)
  moreover from j assms(1) have "prefix (long_text cur) (name (lo ! j))"
    "prefix (long_text cur) (name (lo ! f))"
    by (simp_all add: prefix_match_iff)
  moreover from j(3) have
    "\<not> (has_arg (lo ! j) = has_arg (lo ! f) \<and> flag (lo ! j) = flag (lo ! f) \<and>
        val (lo ! j) = val (lo ! f))"
    by (simp add: IDENTICAL_INTERPRETATION_def)
  ultimately show ?R by blast
next
  assume ?R
  then obtain x y where xy: "x \<in> set lo" "y \<in> set lo" "prefix (long_text cur) (name x)"
    "prefix (long_text cur) (name y)"
    "\<not> (has_arg x = has_arg y \<and> flag x = flag y \<and> val x = val y)"
    by blast
  then obtain i j where ij: "i < length lo" "x = lo ! i" "j < length lo" "y = lo ! j"
    by (auto simp: in_set_conv_nth)
  with xy have pm: "prefix_match lo cur i" "prefix_match lo cur j"
    by (simp_all add: prefix_match_iff)
  from xy(5) ij have "\<not> IDENTICAL_INTERPRETATION lo i j"
    by (simp add: IDENTICAL_INTERPRETATION_def)
  then have "\<not> IDENTICAL_INTERPRETATION lo i f \<or> \<not> IDENTICAL_INTERPRETATION lo j f"
    using IDENTICAL_trans_sym by blast
  then obtain k where k: "prefix_match lo cur k" "\<not> IDENTICAL_INTERPRETATION lo k f"
    using pm by blast
  then have "k \<noteq> f" using IDENTICAL_refl by blast
  moreover from k(1) assms(2) have "\<not> k < f" by blast
  ultimately have "k > f" by simp
  with k show ?L by blast
qed

text \<open>The loop of lines 449 to 469 computes \<open>spec_match\<close> on the text before \<open>=\<close>.\<close>

lemma long_match_loop_spec:
  assumes "CHR ''='' \<notin> set key" and "eqv = [] \<or> hd eqv = CHR ''=''"
  shows "long_match_loop lo (key @ eqv) (current_argv_len_of (key @ eqv)) 0 (- 1) False =
           (case spec_match lo key of
              Selected k \<Rightarrow> (int k, False)
            | Unknown \<Rightarrow> (- 1, False)
            | Ambiguous \<Rightarrow> (int (the (first_index (\<lambda>e. prefix key (name e)) lo)), True))"
proof -
  let ?cur = "key @ eqv"
  note lt = cut_at_equal(2) [OF assms]
  have ex: "exact_match lo ?cur e \<longleftrightarrow> e < length lo \<and> name (lo ! e) = key" for e
    by (simp add: exact_match_iff lt)
  have pm: "prefix_match lo ?cur f \<longleftrightarrow> f < length lo \<and> prefix key (name (lo ! f))" for f
    by (simp add: prefix_match_iff lt)
  show ?thesis
  proof (cases "first_index (\<lambda>e. name e = key) lo")
    case (Some k)
    then have k: "k < length lo" "name (lo ! k) = key" "\<forall>j<k. name (lo ! j) \<noteq> key"
      by (simp_all add: first_index_Some_iff)
    have "long_match_loop lo ?cur (current_argv_len_of ?cur) 0 (- 1) False = (int k, False)"
    proof (rule long_match_loop_exact)
      show "0 \<le> k" by simp
      from k show "exact_match lo ?cur k" by (simp add: ex)
      fix j assume "j < k"
      with k(3) show "\<not> exact_match lo ?cur j" by (simp add: ex)
    qed
    with Some show ?thesis by (simp add: spec_match_def)
  next
    case None
    then have ne: "\<not> (\<exists>e. exact_match lo ?cur e)"
      by (auto simp: first_index_None_iff ex)
    show ?thesis
    proof (cases "first_index (\<lambda>e. prefix key (name e)) lo")
      case n: None
      then have "\<not> (\<exists>f. prefix_match lo ?cur f)"
        by (auto simp: first_index_None_iff pm)
      from long_match_loop_result(2) [OF ne this] None n show ?thesis
        by (simp add: spec_match_def)
    next
      case (Some f)
      then have f: "prefix_match lo ?cur f" "\<forall>j<f. \<not> prefix_match lo ?cur j"
        by (auto simp: first_index_Some_iff pm)
      have d: "(\<exists>x\<in>set lo. \<exists>y\<in>set lo. prefix key (name x) \<and> prefix key (name y) \<and> differ x y)
          \<longleftrightarrow> (\<exists>j>f. prefix_match lo ?cur j \<and> \<not> IDENTICAL_INTERPRETATION lo j f)"
        unfolding ambiguous_iff [OF f] lt by (auto simp: differ_def)
      from long_match_loop_result(3) [OF ne f] None Some d show ?thesis
        by (simp add: spec_match_def)
    qed
  qed
qed

lemma spec_match_Selected: "spec_match lo key = Selected k \<Longrightarrow> k < length lo"
  by (auto simp: spec_match_def first_index_Some_iff split: option.splits if_splits)

lemma long_option_fault_next:
  assumes "place s1 \<noteq> []"
    and "long_match_loop lo (place s1) (current_argv_len_of (place s1)) 0 (- 1) False = (int k, False)"
    and "has_arg (lo ! k) = required_argument" "has_equal_of (place s1) = None"
    and "argv_read (nargv s1) (optind s1 + 1) = Inl f"
  shows "long_option options lo idx s1 = Inl f"
  using assms
  by (auto simp: long_option_def Let_def split: prod.splits)

subsection \<open>Long options\<close>

text \<open>
  The two ways a call ends once an entry \<open>d\<close> (at index \<open>k\<close>) has been selected.
  \<open>resolved_with\<close>: the call returns \<open>0\<close> after storing \<open>val\<close> through the flag pointer, or
  returns \<open>val\<close>; the index slot, if any, receives \<open>k\<close>; \<open>optarg\<close> is \<open>arg\<close>.
  \<open>rejected_with\<close>: the call returns \<open>BADARG\<close> and \<open>optopt\<close> is \<open>val\<close>, or \<open>0\<close> for an entry
  with a flag pointer.
\<close>

definition resolved_with ::
  "option_desc \<Rightarrow> addr option \<Rightarrow> nat \<Rightarrow> scanner \<Rightarrow> string option \<Rightarrow>
     fault + (int \<times> scanner) \<Rightarrow> bool" where
  "resolved_with d idx k s arg res =
     (case res of
        Inl f \<Rightarrow> False
      | Inr (r, s') \<Rightarrow>
          r = (case flag d of Some a \<Rightarrow> 0 | None \<Rightarrow> val d) \<and> optarg s' = arg \<and>
          mem s' = write_back d idx (int k) (mem s))"

definition rejected_with :: "string \<Rightarrow> option_desc \<Rightarrow> fault + (int \<times> scanner) \<Rightarrow> bool" where
  "rejected_with options d res =
     (case res of
        Inl f \<Rightarrow> False
      | Inr (r, s') \<Rightarrow>
          r = BADARG options \<and> optopt s' = (if flag d = None then val d else 0))"

lemma resolved_with_iff:
  "resolved_with d idx k s arg res \<longleftrightarrow>
   (\<exists>s'. res = Inr (case flag d of Some a \<Rightarrow> 0 | None \<Rightarrow> val d, s') \<and>
         optarg s' = arg \<and> mem s' = write_back d idx (int k) (mem s))"
  by (auto simp: resolved_with_def split: sum.splits)

lemma rejected_with_iff:
  "rejected_with options d res \<longleftrightarrow>
   (\<exists>s'. res = Inr (BADARG options, s') \<and>
         optopt s' = (if flag d = None then val d else 0))"
  by (auto simp: rejected_with_def split: sum.splits)

lemma long_option_selected:
  assumes g: "getopt_internal p nargc options s = Inr (- 2, s1)"
    and pl: "place s1 = key @ eqv" "key @ eqv \<noteq> []"
    and cut: "CHR ''='' \<notin> set key" "eqv = [] \<or> hd eqv = CHR ''=''"
    and sel: "spec_match lo key = Selected k"
  shows "if has_arg (lo ! k) = no_argument \<and> eqv \<noteq> []
         then rejected_with options (lo ! k) (getopt_long p nargc options lo idx s)
         else if has_arg (lo ! k) = required_argument \<and> eqv = []
         then (case argv_read (nargv s1) (optind s1 + 1) of
                 Inl f \<Rightarrow> getopt_long p nargc options lo idx s = Inl f
               | Inr None \<Rightarrow> rejected_with options (lo ! k) (getopt_long p nargc options lo idx s)
               | Inr (Some a) \<Rightarrow>
                   resolved_with (lo ! k) idx k s (Some a) (getopt_long p nargc options lo idx s))
         else resolved_with (lo ! k) idx k s (if eqv = [] then None else Some (tl eqv))
                (getopt_long p nargc options lo idx s)"
proof -
  note G = getopt_long_via_long_option [OF g, of lo idx]
  from pl have ne: "place s1 \<noteq> []" by simp
  from long_match_loop_spec [OF cut, of lo] sel pl(1)
  have loop: "long_match_loop lo (place s1) (current_argv_len_of (place s1)) 0 (- 1) False
      = (int k, False)" by simp
  from cut_at_equal(3) [OF cut] pl(1)
  have he: "has_equal_of (place s1) = (if eqv = [] then None else Some (tl eqv))" by simp
  from getopt_internal_frame [OF g] ne have fr: "mem s1 = mem s" "optarg s1 = None" by simp_all
  show ?thesis
  proof (cases "has_arg (lo ! k) = no_argument \<and> eqv \<noteq> []")
    case True
    with he have "has_arg (lo ! k) = no_argument" "has_equal_of (place s1) \<noteq> None" by simp_all
    from long_option_noarg [OF ne loop this, of options idx] True show ?thesis
      by (auto simp: G rejected_with_iff)
  next
    case na: False
    show ?thesis
    proof (cases "has_arg (lo ! k) = required_argument \<and> eqv = []")
      case True
      with he have r: "has_arg (lo ! k) = required_argument" "has_equal_of (place s1) = None"
        by simp_all
      show ?thesis
      proof (cases "argv_read (nargv s1) (optind s1 + 1)")
        case (Inl f)
        from long_option_fault_next [OF ne loop r Inl, of options idx] True Inl show ?thesis
          by (simp add: G)
      next
        case (Inr a)
        show ?thesis
        proof (cases a)
          case None
          with Inr have "argv_read (nargv s1) (optind s1 + 1) = Inr None" by simp
          from long_option_missing [OF ne loop r this, of options idx] True Inr None
          show ?thesis by (auto simp: G rejected_with_iff)
        next
          case (Some x)
          with Inr have ar: "argv_read (nargv s1) (optind s1 + 1) = Inr (Some x)" by simp
          from r ar have h: "has_arg (lo ! k) = no_argument \<longrightarrow> has_equal_of (place s1) = None"
            "has_arg (lo ! k) = required_argument \<longrightarrow> has_equal_of (place s1) = None \<longrightarrow>
               argv_read (nargv s1) (optind s1 + 1) = Inr (Some x)"
            by simp_all
          from long_option_resolved [OF ne loop h, of options idx] True Inr Some r fr
          show ?thesis by (auto simp: G resolved_with_iff)
        qed
      qed
    next
      case nr: False
      from na nr he have h: "has_arg (lo ! k) = no_argument \<longrightarrow> has_equal_of (place s1) = None"
        "has_arg (lo ! k) = required_argument \<longrightarrow> has_equal_of (place s1) = None \<longrightarrow>
           argv_read (nargv s1) (optind s1 + 1) = Inr (Some [])"
        by auto
      from long_option_resolved [OF ne loop h, of options idx] na nr he fr
      show ?thesis
        by (cases "has_arg (lo ! k)") (auto simp: G resolved_with_iff)
    qed
  qed
qed

lemma long_option_not_selected:
  assumes g: "getopt_internal p nargc options s = Inr (- 2, s1)"
    and pl: "place s1 = key @ eqv" "key @ eqv \<noteq> []"
    and cut: "CHR ''='' \<notin> set key" "eqv = [] \<or> hd eqv = CHR ''=''"
    and sel: "spec_match lo key = Ambiguous \<or> spec_match lo key = Unknown"
  shows "\<exists>s'. getopt_long p nargc options lo idx s = Inr (BADCH, s') \<and> optopt s' = 0 \<and>
           (err_out s' \<noteq> err_out s \<longleftrightarrow> PRINT_ERROR s options)"
proof -
  note G = getopt_long_via_long_option [OF g, of lo idx]
  from pl have ne: "place s1 \<noteq> []" by simp
  from getopt_internal_frame [OF g] have fr: "err_out s1 = err_out s"
    "PRINT_ERROR s1 options = PRINT_ERROR s options"
    by (simp_all add: PRINT_ERROR_def)
  from long_match_loop_spec [OF cut, of lo] sel pl(1)
  have "snd (long_match_loop lo (place s1) (current_argv_len_of (place s1)) 0 (- 1) False) \<or>
     long_match_loop lo (place s1) (current_argv_len_of (place s1)) 0 (- 1) False = (- 1, False)"
    by auto
  with long_option_ambiguous [OF ne, of lo options idx] long_option_unknown [OF ne, of lo options idx]
  show ?thesis unfolding G fr by auto
qed

text \<open>
  C2. The scanner has found a long-option text (\<open>getopt_internal\<close> returned \<open>-2\<close>): \<open>key\<close>,
  which holds no \<open>=\<close>, alone or followed by \<open>=\<close> and a value (\<open>eqv\<close>).  The matching is on
  \<open>key\<close> only.  If some entry's full name equals \<open>key\<close>, such an entry is selected,
  whatever other entries \<open>key\<close> is a prefix of.  If none does, the text is ambiguous exactly
  when two entries it is a prefix of differ in arity, flag pointer or value, and otherwise
  the first entry it is a prefix of is selected.  The call then does what the selection
  says: ambiguity (and a text that matches nothing) returns \<open>'?'\<close> with \<open>optopt = 0\<close>; a
  selected entry is resolved (return value, write-back of flag and index, \<open>optarg\<close>) or
  rejected for its argument, according to its own arity and the presence of a value.
\<close>

theorem long_option_matching:
  assumes "getopt_internal p nargc options s = Inr (- 2, s1)"
    and "place s1 = key @ eqv" and "key @ eqv \<noteq> []"
    and "CHR ''='' \<notin> set key" and "eqv = [] \<or> hd eqv = CHR ''=''"
  shows
    "((\<exists>e<length lo. name (lo ! e) = key) \<longrightarrow>
        (\<exists>k<length lo. name (lo ! k) = key \<and> spec_match lo key = Selected k)) \<and>
     ((\<forall>e<length lo. name (lo ! e) \<noteq> key) \<longrightarrow>
        (spec_match lo key = Ambiguous \<longleftrightarrow>
           (\<exists>x\<in>set lo. \<exists>y\<in>set lo.
              prefix key (name x) \<and> prefix key (name y) \<and> differ x y)) \<and>
        (\<forall>f<length lo.
           prefix key (name (lo ! f)) \<and> (\<forall>j<f. \<not> prefix key (name (lo ! j))) \<and>
           spec_match lo key \<noteq> Ambiguous \<longrightarrow> spec_match lo key = Selected f)) \<and>
     (case spec_match lo key of
        Ambiguous \<Rightarrow>
          (\<exists>s'. getopt_long p nargc options lo idx s = Inr (BADCH, s') \<and> optopt s' = 0)
      | Unknown \<Rightarrow>
          (\<exists>s'. getopt_long p nargc options lo idx s = Inr (BADCH, s') \<and> optopt s' = 0)
      | Selected k \<Rightarrow>
          k < length lo \<and>
          (if has_arg (lo ! k) = no_argument \<and> eqv \<noteq> []
           then rejected_with options (lo ! k) (getopt_long p nargc options lo idx s)
           else if has_arg (lo ! k) = required_argument \<and> eqv = []
           then (case argv_read (nargv s1) (optind s1 + 1) of
                   Inl f \<Rightarrow> getopt_long p nargc options lo idx s = Inl f
                 | Inr None \<Rightarrow>
                     rejected_with options (lo ! k) (getopt_long p nargc options lo idx s)
                 | Inr (Some a) \<Rightarrow>
                     resolved_with (lo ! k) idx k s (Some a)
                       (getopt_long p nargc options lo idx s))
           else resolved_with (lo ! k) idx k s (if eqv = [] then None else Some (tl eqv))
                  (getopt_long p nargc options lo idx s)))"
proof (intro conjI impI)
  assume "\<exists>e<length lo. name (lo ! e) = key"
  then obtain e where "e < length lo" "name (lo ! e) = key" by blast
  then have "lo ! e \<in> set lo \<and> name (lo ! e) = key" by simp
  then have "\<exists>x\<in>set lo. name x = key" by blast
  then obtain k where k: "first_index (\<lambda>e. name e = key) lo = Some k"
    by (cases "first_index (\<lambda>e. name e = key) lo") (auto simp: first_index_None_iff)
  then have "k < length lo \<and> name (lo ! k) = key" by (simp add: first_index_Some_iff)
  moreover from k have "spec_match lo key = Selected k" by (simp add: spec_match_def)
  ultimately show "\<exists>k<length lo. name (lo ! k) = key \<and> spec_match lo key = Selected k"
    by blast
next
  assume "\<forall>e<length lo. name (lo ! e) \<noteq> key"
  then have n: "first_index (\<lambda>e. name e = key) lo = None"
    by (auto simp: first_index_None_iff in_set_conv_nth)
  show "spec_match lo key = Ambiguous \<longleftrightarrow>
           (\<exists>x\<in>set lo. \<exists>y\<in>set lo.
              prefix key (name x) \<and> prefix key (name y) \<and> differ x y)"
  proof (cases "first_index (\<lambda>e. prefix key (name e)) lo")
    case None
    then have "\<forall>x\<in>set lo. \<not> prefix key (name x)" by (simp add: first_index_None_iff)
    with n None show ?thesis by (auto simp: spec_match_def)
  next
    case (Some f)
    with n show ?thesis by (simp add: spec_match_def)
  qed
  show "\<forall>f<length lo.
           prefix key (name (lo ! f)) \<and> (\<forall>j<f. \<not> prefix key (name (lo ! j))) \<and>
           spec_match lo key \<noteq> Ambiguous \<longrightarrow> spec_match lo key = Selected f"
  proof (intro allI impI)
    fix f
    assume "f < length lo"
      and h: "prefix key (name (lo ! f)) \<and> (\<forall>j<f. \<not> prefix key (name (lo ! j))) \<and>
           spec_match lo key \<noteq> Ambiguous"
    then have "first_index (\<lambda>e. prefix key (name e)) lo = Some f"
      by (simp add: first_index_Some_iff)
    with n h show "spec_match lo key = Selected f"
      by (simp add: spec_match_def split: if_splits)
  qed
next
  show "case spec_match lo key of
        Ambiguous \<Rightarrow>
          (\<exists>s'. getopt_long p nargc options lo idx s = Inr (BADCH, s') \<and> optopt s' = 0)
      | Unknown \<Rightarrow>
          (\<exists>s'. getopt_long p nargc options lo idx s = Inr (BADCH, s') \<and> optopt s' = 0)
      | Selected k \<Rightarrow>
          k < length lo \<and>
          (if has_arg (lo ! k) = no_argument \<and> eqv \<noteq> []
           then rejected_with options (lo ! k) (getopt_long p nargc options lo idx s)
           else if has_arg (lo ! k) = required_argument \<and> eqv = []
           then (case argv_read (nargv s1) (optind s1 + 1) of
                   Inl f \<Rightarrow> getopt_long p nargc options lo idx s = Inl f
                 | Inr None \<Rightarrow>
                     rejected_with options (lo ! k) (getopt_long p nargc options lo idx s)
                 | Inr (Some a) \<Rightarrow>
                     resolved_with (lo ! k) idx k s (Some a)
                       (getopt_long p nargc options lo idx s))
           else resolved_with (lo ! k) idx k s (if eqv = [] then None else Some (tl eqv))
                  (getopt_long p nargc options lo idx s))"
  proof (cases "spec_match lo key")
    case (Selected k)
    from long_option_selected [OF assms Selected, of idx] spec_match_Selected [OF Selected]
      Selected show ?thesis by simp
  next
    case Ambiguous
    with long_option_not_selected [OF assms, of lo idx] show ?thesis by auto
  next
    case Unknown
    with long_option_not_selected [OF assms, of lo idx] show ?thesis by auto
  qed
qed

lemma getopt_internal_long_token:
  assumes "optreset s \<noteq> 0 \<or> place s = []" "0 < optind s" "optind s < nargc"
    "optind s < int (length (nargv s))" "nargv s ! nat (optind s) = CHR ''-'' # CHR ''-'' # cur"
  shows "getopt_internal p nargc options s = Inr (- 2, letter_state s cur)"
  using assms
  by (auto simp: getopt_internal_def enter_def Let_def letter_state_def
        start_loop_token [where c = "CHR ''-''" and rest = cur]
        intro!: scanner.equality)

text \<open>
  The theorem on \<open>--out=f\<close> and on \<open>--ou\<close> with a table in which \<open>out\<close> is a name of its own
  and a proper prefix of the name before it: \<open>--out=f\<close> selects \<open>out\<close>, which takes the
  value \<open>f\<close>; \<open>--ou\<close> is ambiguous.
\<close>

definition out_table :: "option_desc list" where
  "out_table = [\<lparr>name = ''output'', has_arg = required_argument, flag = None, val = 111\<rparr>,
                \<lparr>name = ''out'', has_arg = optional_argument, flag = None, val = 7\<rparr>,
                \<lparr>name = ''outline'', has_arg = no_argument, flag = None, val = 9\<rparr>]"

theorem long_option_matching_witness:
  "getopt_internal False 2 ''a'' (initial [''prog'', ''--out=f''] zero_mem) =
     Inr (- 2, letter_state (initial [''prog'', ''--out=f''] zero_mem) ''out=f'') \<and>
   place (letter_state (initial [''prog'', ''--out=f''] zero_mem) ''out=f'') = ''out'' @ ''=f'' \<and>
   CHR ''='' \<notin> set ''out'' \<and> hd ''=f'' = CHR ''='' \<and>
   spec_match out_table ''out'' = Selected 1 \<and>
   (\<exists>s'. getopt_long False 2 ''a'' out_table (Some 9) (initial [''prog'', ''--out=f''] zero_mem)
            = Inr (7, s') \<and> optarg s' = Some ''f'' \<and> mem s' 9 = 1) \<and>
   ret_optarg (getopt_long False 2 ''a'' out_table (Some 9)
                 (initial [''prog'', ''--out=f''] zero_mem)) = Some (7, Some ''f'') \<and>
   getopt_internal False 2 ''a'' (initial [''prog'', ''--ou''] zero_mem) =
     Inr (- 2, letter_state (initial [''prog'', ''--ou''] zero_mem) ''ou'') \<and>
   spec_match out_table ''ou'' = Ambiguous \<and>
   (\<exists>x\<in>set out_table. \<exists>y\<in>set out_table.
      prefix ''ou'' (name x) \<and> prefix ''ou'' (name y) \<and> differ x y) \<and>
   (\<exists>s'. getopt_long False 2 ''a'' out_table (Some 9) (initial [''prog'', ''--ou''] zero_mem)
            = Inr (BADCH, s') \<and> optopt s' = 0)"
proof -
  let ?s = "initial [''prog'', ''--out=f''] zero_mem"
  let ?t = "initial [''prog'', ''--ou''] zero_mem"
  have h1: "getopt_internal False 2 ''a'' ?s = Inr (- 2, letter_state ?s ''out=f'')"
    by (rule getopt_internal_long_token) (simp_all add: initial_def)
  have h2: "place (letter_state ?s ''out=f'') = ''out'' @ ''=f''" by (simp add: initial_def)
  have h3: "''out'' @ ''=f'' \<noteq> []" by simp
  have h4: "CHR ''='' \<notin> set ''out''" by simp
  have h5: "''=f'' = [] \<or> hd ''=f'' = CHR ''=''" by simp
  have m1: "spec_match out_table ''out'' = Selected 1" by code_simp
  have d1: "out_table ! Suc 0 =
      \<lparr>name = ''out'', has_arg = optional_argument, flag = None, val = 7\<rparr>"
    by (simp add: out_table_def)
  have g1: "getopt_internal False 2 ''a'' ?t = Inr (- 2, letter_state ?t ''ou'')"
    by (rule getopt_internal_long_token) (simp_all add: initial_def)
  have g2: "place (letter_state ?t ''ou'') = ''ou'' @ []" by (simp add: initial_def)
  have g3: "''ou'' @ [] \<noteq> []" by simp
  have g4: "CHR ''='' \<notin> set ''ou''" by simp
  have g5: "[] = [] \<or> hd [] = CHR ''=''" by simp
  have m2: "spec_match out_table ''ou'' = Ambiguous" by code_simp
  have "''ou'' \<notin> name ` set out_table" by (simp add: out_table_def)
  then have n2: "\<forall>e<length out_table. name (out_table ! e) \<noteq> ''ou''"
    by (simp add: in_set_names_iff)
  note t1 = long_option_matching [OF h1 h2 h3 h4 h5, of out_table "Some 9",
      THEN conjunct2, THEN conjunct2]
  note t2 = long_option_matching [OF g1 g2 g3 g4 g5, of out_table "Some 9"]
  from t1 have r1: "\<exists>s'. getopt_long False 2 ''a'' out_table (Some 9) ?s = Inr (7, s') \<and>
      optarg s' = Some ''f'' \<and> mem s' 9 = 1"
    by (auto simp: m1 d1 resolved_with_iff write_back_def)
  from mp [OF t2 [THEN conjunct2, THEN conjunct1] n2, THEN conjunct1] m2
  have r2: "\<exists>x\<in>set out_table. \<exists>y\<in>set out_table.
      prefix ''ou'' (name x) \<and> prefix ''ou'' (name y) \<and> differ x y"
    by simp
  from t2 [THEN conjunct2, THEN conjunct2] m2
  have r3: "\<exists>s'. getopt_long False 2 ''a'' out_table (Some 9) ?t = Inr (BADCH, s') \<and>
      optopt s' = 0"
    by simp
  have ev: "ret_optarg (getopt_long False 2 ''a'' out_table (Some 9) ?s) = Some (7, Some ''f'')"
    by code_simp
  from h1 h2 h4 m1 r1 ev g1 m2 r2 r3 show ?thesis by simp
qed

text \<open>
  C9. The long-option text \<open>cur\<close> resolves to entry \<open>k\<close> without an argument error.  Then
  a descriptor with a flag pointer has its \<open>val\<close> stored through the pointer and the call
  returns \<open>0\<close>; a descriptor without one makes the call return its \<open>val\<close>; and a supplied
  \<open>idx\<close> slot receives \<open>k\<close>.  \<open>write_back\<close> is the two stores in the order the code makes
  them.
\<close>

theorem long_option_write_back:
  assumes "getopt_internal p nargc options s = Inr (- 2, s1)" and "place s1 = cur" and "cur \<noteq> []"
    and "long_match_loop lo cur (current_argv_len_of cur) 0 (- 1) False = (int k, False)"
    and "has_arg (lo ! k) = no_argument \<longrightarrow> has_equal_of cur = None"
    and "has_arg (lo ! k) = required_argument \<longrightarrow> has_equal_of cur = None \<longrightarrow>
           argv_read (nargv s1) (optind s1 + 1) = Inr (Some a)"
  shows "\<exists>s'. getopt_long p nargc options lo idx s =
                 Inr (case flag (lo ! k) of Some _ \<Rightarrow> 0 | None \<Rightarrow> val (lo ! k), s') \<and>
               mem s' = write_back (lo ! k) idx (int k) (mem s) \<and>
               (\<forall>q. idx = Some q \<longrightarrow> mem s' q = int k) \<and>
               (\<forall>d. flag (lo ! k) = Some d \<and> idx \<noteq> Some d \<longrightarrow> mem s' d = val (lo ! k))"
proof -
  from assms(2,3) have pl: "place s1 \<noteq> []" by simp
  from long_option_resolved [OF pl, of lo k a options idx] assms(2-6)
  obtain s' where s': "long_option options lo idx s1 =
             Inr (case flag (lo ! k) of Some _ \<Rightarrow> 0 | None \<Rightarrow> val (lo ! k), s')"
    "mem s' = write_back (lo ! k) idx (int k) (mem s1)"
    by auto
  moreover have "mem s1 = mem s" by (rule getopt_internal_frame(1) [OF assms(1)])
  ultimately show ?thesis
    using assms(1)
    by (auto simp: getopt_long_via_long_option write_back_def Let_def split: option.splits)
qed

definition flag_table :: "option_desc list" where
  "flag_table = [\<lparr>name = ''quiet'', has_arg = no_argument, flag = Some 7, val = 5\<rparr>,
                 \<lparr>name = ''output'', has_arg = required_argument, flag = None, val = 111\<rparr>]"

theorem long_option_write_back_witness:
  "getopt_internal False 2 ''a'' (initial [''prog'', ''--quiet''] zero_mem) =
     Inr (- 2, letter_state (initial [''prog'', ''--quiet''] zero_mem) ''quiet'') \<and>
   long_match_loop flag_table ''quiet'' (current_argv_len_of ''quiet'') 0 (- 1) False = (int 0, False) \<and>
   (\<exists>s'. getopt_long False 2 ''a'' flag_table (Some 9) (initial [''prog'', ''--quiet''] zero_mem) =
            Inr (0, s') \<and> mem s' 7 = 5 \<and> mem s' 9 = 0) \<and>
   getopt_internal False 3 ''a'' (initial [''prog'', ''--output'', ''f''] zero_mem) =
     Inr (- 2, letter_state (initial [''prog'', ''--output'', ''f''] zero_mem) ''output'') \<and>
   long_match_loop flag_table ''output'' (current_argv_len_of ''output'') 0 (- 1) False = (int 1, False) \<and>
   (\<exists>s'. getopt_long False 3 ''a'' flag_table (Some 9) (initial [''prog'', ''--output'', ''f''] zero_mem) =
            Inr (111, s') \<and> mem s' 9 = 1)"
proof -
  let ?s = "initial [''prog'', ''--quiet''] zero_mem"
  let ?t = "initial [''prog'', ''--output'', ''f''] zero_mem"
  have h1: "getopt_internal False 2 ''a'' ?s = Inr (- 2, letter_state ?s ''quiet'')"
    by (rule getopt_internal_long_token) (simp_all add: initial_def)
  have h2: "place (letter_state ?s ''quiet'') = ''quiet''" by (simp add: initial_def)
  have h3: "''quiet'' \<noteq> []" by simp
  have h4: "long_match_loop flag_table ''quiet'' (current_argv_len_of ''quiet'') 0 (- 1) False
              = (int 0, False)"
    by code_simp
  have h5: "has_arg (flag_table ! 0) = no_argument \<longrightarrow> has_equal_of ''quiet'' = None"
    by (simp add: has_equal_of_def)
  have h6: "has_arg (flag_table ! 0) = required_argument \<longrightarrow> has_equal_of ''quiet'' = None \<longrightarrow>
           argv_read (nargv (letter_state ?s ''quiet'')) (optind (letter_state ?s ''quiet'') + 1)
             = Inr (Some [])"
    by (simp add: flag_table_def)
  have g1: "getopt_internal False 3 ''a'' ?t = Inr (- 2, letter_state ?t ''output'')"
    by (rule getopt_internal_long_token) (simp_all add: initial_def)
  have g2: "place (letter_state ?t ''output'') = ''output''" by (simp add: initial_def)
  have g3: "''output'' \<noteq> []" by simp
  have g4: "long_match_loop flag_table ''output'' (current_argv_len_of ''output'') 0 (- 1) False
              = (int 1, False)"
    by code_simp
  have g5: "has_arg (flag_table ! 1) = no_argument \<longrightarrow> has_equal_of ''output'' = None"
    by (simp add: has_equal_of_def)
  have g6: "has_arg (flag_table ! 1) = required_argument \<longrightarrow> has_equal_of ''output'' = None \<longrightarrow>
           argv_read (nargv (letter_state ?t ''output'')) (optind (letter_state ?t ''output'') + 1)
             = Inr (Some ''f'')"
    by (simp add: flag_table_def argv_read_def initial_def)
  from long_option_write_back [OF h1 h2 h3 h4 h5 h6, of "Some 9"]
    long_option_write_back [OF g1 g2 g3 g4 g5 g6, of "Some 9"] h1 h4 g1 g4
  show ?thesis
    by (auto simp: flag_table_def)
qed


subsection \<open>Short options\<close>

text \<open>
  \<open>letter_view\<close> shows of a \<open>scan_to_letter\<close> result the letter, the rest of its token,
  the index of the token and the vector.
\<close>

definition letter_view ::
  "(char \<times> string \<times> scanner) option \<Rightarrow> (char \<times> string \<times> int \<times> string list) option" where
  "letter_view x =
     (case x of None \<Rightarrow> None | Some (c, rest, u) \<Rightarrow> Some (c, rest, optind u, nargv u))"

lemma letter_viewD:
  "letter_view (scan_to_letter p nargc options s) = Some (c, rest, i, v) \<Longrightarrow>
   \<exists>u. scan_to_letter p nargc options s = Some (c, rest, u) \<and> optind u = i \<and> nargv u = v"
  by (auto simp: letter_view_def split: option.splits)


text \<open>
  A declared letter that is the byte \<open>0xFE\<close> and leaves nothing of its token: the
  option-letter code returns its value \<open>-2\<close>, which \<open>getopt_long\<close> takes for the request to
  scan a long option; with an empty text this is the code for the \<open>--\<close> terminator, and the
  call returns \<open>-1\<close>.
\<close>

lemma sentinel_letter:
  assumes "getopt_internal p nargc options s = Inr (ord (CHR 0xFE), t)" and "place t = []"
    and "getopt_long p nargc options lo idx s = Inr (r, s')"
  shows "r = - 1"
proof -
  have "ord (CHR 0xFE) = - 2" by (simp add: ord_m2)
  with getopt_long_hands_on(2) [OF assms] show ?thesis by simp
qed



subsection \<open>Attached and separated arguments\<close>



subsection \<open>Optional arguments\<close>





subsection \<open>Error returns\<close>

text \<open>
  C8 as amended. Every error return assigns \<open>optopt\<close>, whether or not a diagnostic is
  written (\<open>err_out\<close> changes exactly when \<open>PRINT_ERROR\<close> holds): an unknown option letter
  and a letter whose required argument is missing (also for \<open>W;\<close>) leave the letter, as
  the \<open>int\<close> value of the character, in \<open>optopt\<close>; an ambiguous or unknown long option
  leaves \<open>0\<close>; a long option given a forbidden argument or missing its required one leaves
  the descriptor's \<open>val\<close> when its flag pointer is null and \<open>0\<close> otherwise.  These are all
  the places where the code returns \<open>BADCH\<close> or \<open>BADARG\<close>.
\<close>

theorem error_returns_set_optopt:
  "(scan_to_letter p nargc options s = Some (c, rest, u) \<and> short_arity options c = None \<longrightarrow>
      (\<exists>s'. getopt_long p nargc options lo idx s = Inr (BADCH, s') \<and> optopt s' = ord c \<and>
             (err_out s' \<noteq> err_out s \<longleftrightarrow> PRINT_ERROR s options))) \<and>
   (scan_to_letter p nargc options s = Some (c, [], u) \<and> nargc \<le> optind u + 1 \<and>
    (short_arity options c = Some required_argument \<or> W_escape options c) \<longrightarrow>
      (\<exists>s'. getopt_long p nargc options lo idx s = Inr (BADARG options, s') \<and>
             optopt s' = ord c \<and> (err_out s' \<noteq> err_out s \<longleftrightarrow> PRINT_ERROR s options))) \<and>
   (getopt_internal p nargc options s = Inr (- 2, s1) \<and> place s1 = key @ eqv \<and>
    key @ eqv \<noteq> [] \<and> CHR ''='' \<notin> set key \<and> (eqv = [] \<or> hd eqv = CHR ''='') \<longrightarrow>
      (spec_match lo key = Ambiguous \<or> spec_match lo key = Unknown \<longrightarrow>
         (\<exists>s'. getopt_long p nargc options lo idx s = Inr (BADCH, s') \<and> optopt s' = 0 \<and>
                (err_out s' \<noteq> err_out s \<longleftrightarrow> PRINT_ERROR s options))) \<and>
      (\<forall>k. spec_match lo key = Selected k \<and>
           (has_arg (lo ! k) = no_argument \<and> eqv \<noteq> [] \<or>
            has_arg (lo ! k) = required_argument \<and> eqv = [] \<and>
            argv_read (nargv s1) (optind s1 + 1) = Inr None) \<longrightarrow>
         (\<exists>s'. getopt_long p nargc options lo idx s = Inr (BADARG options, s') \<and>
                optopt s' = (if flag (lo ! k) = None then val (lo ! k) else 0) \<and>
                (err_out s' \<noteq> err_out s \<longleftrightarrow> PRINT_ERROR s options))))"
proof (intro conjI impI allI; (elim conjE)?)
  assume a: "scan_to_letter p nargc options s = Some (c, rest, u)" "short_arity options c = None"
  note d = scan_to_letterD [OF a(1)] and fr = scan_to_letter_frame [OF a(1)]
  from option_letter_unknown [OF d(2) a(2), of nargc] d(3) obtain s' where
    s': "getopt_internal p nargc options s = Inr (BADCH, s')" "optopt s' = ord c"
      "err_out s' \<noteq> err_out u \<longleftrightarrow> PRINT_ERROR u options"
    by auto
  from getopt_long_hands_on(1) [OF s'(1) BADCH_neq_m2] s'(2,3) fr(1,6)
  show "\<exists>s'. getopt_long p nargc options lo idx s = Inr (BADCH, s') \<and> optopt s' = ord c \<and>
             (err_out s' \<noteq> err_out s \<longleftrightarrow> PRINT_ERROR s options)"
    by auto
next
  assume a: "scan_to_letter p nargc options s = Some (c, [], u)" "nargc \<le> optind u + 1"
    "short_arity options c = Some required_argument \<or> W_escape options c"
  note d = scan_to_letterD [OF a(1)] and fr = scan_to_letter_frame [OF a(1)]
  from option_letter_missing [OF d(2) a(3,2)] d(3) obtain s' where
    s': "getopt_internal p nargc options s = Inr (BADARG options, s')" "optopt s' = ord c"
      "err_out s' \<noteq> err_out u \<longleftrightarrow> PRINT_ERROR u options"
    by auto
  from getopt_long_hands_on(1) [OF s'(1) BADARG_neq_m2] s'(2,3) fr(1,6)
  show "\<exists>s'. getopt_long p nargc options lo idx s = Inr (BADARG options, s') \<and>
             optopt s' = ord c \<and> (err_out s' \<noteq> err_out s \<longleftrightarrow> PRINT_ERROR s options)"
    by auto
next
  assume a: "getopt_internal p nargc options s = Inr (- 2, s1)" "place s1 = key @ eqv"
    "key @ eqv \<noteq> []" "CHR ''='' \<notin> set key" "eqv = [] \<or> hd eqv = CHR ''=''"
    "spec_match lo key = Ambiguous \<or> spec_match lo key = Unknown"
  show "\<exists>s'. getopt_long p nargc options lo idx s = Inr (BADCH, s') \<and> optopt s' = 0 \<and>
                (err_out s' \<noteq> err_out s \<longleftrightarrow> PRINT_ERROR s options)"
    by (rule long_option_not_selected [OF a])
next
  fix k
  assume a: "getopt_internal p nargc options s = Inr (- 2, s1)" "place s1 = key @ eqv"
    "key @ eqv \<noteq> []" "CHR ''='' \<notin> set key" "eqv = [] \<or> hd eqv = CHR ''=''"
    "spec_match lo key = Selected k"
    "has_arg (lo ! k) = no_argument \<and> eqv \<noteq> [] \<or>
            has_arg (lo ! k) = required_argument \<and> eqv = [] \<and>
            argv_read (nargv s1) (optind s1 + 1) = Inr None"
  note G = getopt_long_via_long_option [OF a(1), of lo idx]
  from a(2,3) have ne: "place s1 \<noteq> []" by simp
  from long_match_loop_spec [OF a(4,5), of lo] a(6,2)
  have loop: "long_match_loop lo (place s1) (current_argv_len_of (place s1)) 0 (- 1) False
      = (int k, False)" by simp
  from cut_at_equal(3) [OF a(4,5)] a(2)
  have he: "has_equal_of (place s1) = (if eqv = [] then None else Some (tl eqv))" by simp
  from getopt_internal_frame [OF a(1)] have fr: "err_out s1 = err_out s"
    "PRINT_ERROR s1 options = PRINT_ERROR s options"
    by (simp_all add: PRINT_ERROR_def)
  from a(7) he long_option_noarg [OF ne loop, of options idx]
    long_option_missing [OF ne loop, of options idx]
  show "\<exists>s'. getopt_long p nargc options lo idx s = Inr (BADARG options, s') \<and>
                optopt s' = (if flag (lo ! k) = None then val (lo ! k) else 0) \<and>
                (err_out s' \<noteq> err_out s \<longleftrightarrow> PRINT_ERROR s options)"
    unfolding G fr by auto
qed

theorem error_returns_set_optopt_witness:
  "(\<exists>u. scan_to_letter False 3 ''a'' (initial [''prog'', ''x'', ''-q''] zero_mem) =
          Some (CHR ''q'', [], u)) \<and>
   short_arity ''a'' CHR ''q'' = None \<and>
   (\<exists>s'. getopt_long False 3 ''a'' vv_table None (initial [''prog'', ''x'', ''-q''] zero_mem) =
            Inr (BADCH, s') \<and> optopt s' = ord CHR ''q'') \<and>
   getopt_internal False 2 ''a'' (initial [''prog'', ''--verbose=x''] zero_mem) =
     Inr (- 2, letter_state (initial [''prog'', ''--verbose=x''] zero_mem) ''verbose=x'') \<and>
   spec_match vv_table ''verbose'' = Selected 0 \<and>
   (\<exists>s'. getopt_long False 2 ''a'' vv_table None (initial [''prog'', ''--verbose=x''] zero_mem) =
            Inr (BADARG ''a'', s') \<and> optopt s' = 1) \<and>
   getopt_internal False 2 ''a'' (initial [''prog'', ''--foo''] zero_mem) =
     Inr (- 2, letter_state (initial [''prog'', ''--foo''] zero_mem) ''foo'') \<and>
   spec_match vv_table ''foo'' = Unknown \<and>
   (\<exists>s'. getopt_long False 2 ''a'' vv_table None (initial [''prog'', ''--foo''] zero_mem) =
            Inr (BADCH, s') \<and> optopt s' = 0) \<and>
   ret_optopt (getopt_long False 3 ''a'' vv_table None (initial [''prog'', ''x'', ''-q''] zero_mem))
     = Some (BADCH, ord CHR ''q'') \<and>
   ret_optopt (getopt_long False 2 ''a'' vv_table None (initial [''prog'', ''--verbose=x''] zero_mem))
     = Some (BADARG ''a'', 1)"
proof -
  let ?s = "initial [''prog'', ''x'', ''-q''] zero_mem"
  let ?t = "initial [''prog'', ''--verbose=x''] zero_mem"
  let ?u = "initial [''prog'', ''--foo''] zero_mem"
  have "letter_view (scan_to_letter False 3 ''a'' ?s) =
      Some (CHR ''q'', [], 2, [''prog'', ''x'', ''-q''])"
    by code_simp
  from letter_viewD [OF this] obtain u where
    a1: "scan_to_letter False 3 ''a'' ?s = Some (CHR ''q'', [], u)" by blast
  have a2: "short_arity ''a'' CHR ''q'' = None" by (simp add: short_arity_def IGNORE_FIRST_def)
  have b1: "getopt_internal False 2 ''a'' ?t = Inr (- 2, letter_state ?t ''verbose=x'')"
    by (rule getopt_internal_long_token) (simp_all add: initial_def)
  have b2: "place (letter_state ?t ''verbose=x'') = ''verbose'' @ ''=x''"
    by (simp add: initial_def)
  have b3: "''verbose'' @ ''=x'' \<noteq> []" "CHR ''='' \<notin> set ''verbose''"
    "''=x'' = [] \<or> hd ''=x'' = CHR ''=''"
    by simp_all
  have b4: "spec_match vv_table ''verbose'' = Selected 0" by code_simp
  have b5: "has_arg (vv_table ! 0) = no_argument \<and> ''=x'' \<noteq> [] \<or>
            has_arg (vv_table ! 0) = required_argument \<and> ''=x'' = [] \<and>
            argv_read (nargv (letter_state ?t ''verbose=x''))
              (optind (letter_state ?t ''verbose=x'') + 1) = Inr None"
    by (simp add: vv_table_def)
  have b6: "flag (vv_table ! 0) = None" "val (vv_table ! 0) = 1" by (simp_all add: vv_table_def)
  have c1: "getopt_internal False 2 ''a'' ?u = Inr (- 2, letter_state ?u ''foo'')"
    by (rule getopt_internal_long_token) (simp_all add: initial_def)
  have c2: "place (letter_state ?u ''foo'') = ''foo'' @ []" by (simp add: initial_def)
  have c3: "''foo'' @ [] \<noteq> []" "CHR ''='' \<notin> set ''foo''" "[] = [] \<or> hd [] = CHR ''=''"
    by simp_all
  have c4: "spec_match vv_table ''foo'' = Unknown" by code_simp
  note t1 = error_returns_set_optopt [where nargc = 3 and s = ?s and c = "CHR ''q''"
        and rest = "[]" and u = u and options = "''a''" and p = False and lo = vv_table
        and idx = None,
      THEN conjunct1, THEN mp, OF conjI [OF a1 a2]]
  note t2 = error_returns_set_optopt [where nargc = 2 and s = ?t and key = "''verbose''"
        and eqv = "''=x''" and options = "''a''" and p = False and lo = vv_table and idx = None,
      THEN conjunct2, THEN conjunct2, THEN mp,
      OF conjI [OF b1 conjI [OF b2 conjI [OF b3(1) conjI [OF b3(2) b3(3)]]]],
      THEN conjunct2, THEN spec, THEN mp, OF conjI [OF b4 b5]]
  note t3 = error_returns_set_optopt [where nargc = 2 and s = ?u and key = "''foo''"
        and eqv = "[]" and options = "''a''" and p = False and lo = vv_table and idx = None,
      THEN conjunct2, THEN conjunct2, THEN mp,
      OF conjI [OF c1 conjI [OF c2 conjI [OF c3(1) conjI [OF c3(2) c3(3)]]]],
      THEN conjunct1, THEN mp, OF disjI2 [OF c4]]
  have ev: "ret_optopt (getopt_long False 3 ''a'' vv_table None ?s) = Some (BADCH, ord CHR ''q'')"
    "ret_optopt (getopt_long False 2 ''a'' vv_table None ?t) = Some (BADARG ''a'', 1)"
    by code_simp+
  from t1 t2 t3 a1 a2 b1 b4 b6 c1 c4 ev show ?thesis
    by auto
qed

subsection \<open>The permutation engine\<close>

lemma gcd_loop_gcd: "0 < b \<Longrightarrow> 0 \<le> c \<Longrightarrow> gcd_loop a b c = gcd b c"
proof (induction a b c rule: gcd_loop.induct)
  case (1 a b c)
  show ?case
  proof (cases "c = 0")
    case True
    with "1.prems" show ?thesis by (subst gcd_loop.simps) simp
  next
    case False
    with "1.prems" have c: "0 < c" by simp
    with "1.prems" have m: "c_mod b c = b mod c" by (simp add: c_mod_nonneg)
    have "gcd_loop b c (c_mod b c) = gcd c (c_mod b c)"
      using False c m by (intro "1.IH") simp_all
    also have "\<dots> = gcd b c" by (simp add: m gcd.commute gcd_red_int [of b c])
    finally show ?thesis using False by (subst gcd_loop.simps) simp
  qed
qed

lemma gcd_c_gcd: "0 \<le> a \<Longrightarrow> 0 < b \<Longrightarrow> gcd_c a b = Inr (gcd a b)"
  by (simp add: gcd_c_def gcd_loop_gcd c_mod_nonneg gcd_red_int [of a b])

definition cycle_len :: "nat \<Rightarrow> nat \<Rightarrow> nat" where
  "cycle_len a b = (a + b) div gcd a b"

lemma cyc_basic:
  fixes a b :: nat
  assumes "0 < a"
  shows "0 < gcd a b" "gcd a b dvd a + b" "cycle_len a b * gcd a b = a + b" "0 < cycle_len a b"
proof -
  show g: "0 < gcd a b" using assms by simp
  show d: "gcd a b dvd a + b" by simp
  then show e: "cycle_len a b * gcd a b = a + b"
    by (simp only: cycle_len_def dvd_div_mult_self)
  with assms show "0 < cycle_len a b" by (cases "cycle_len a b = 0") simp_all
qed

lemma cyc_coprime:
  fixes a b :: nat
  assumes "0 < a"
  shows "coprime (cycle_len a b) (b div gcd a b)"
proof -
  have "gcd (a + b) b = gcd a b" by simp
  moreover have "a + b \<noteq> 0" using assms by simp
  ultimately have "coprime ((a + b) div gcd a b) (b div gcd a b)"
    using div_gcd_coprime [of "a + b" b] by simp
  then show ?thesis by (simp add: cycle_len_def)
qed

lemma cyc_same_step:
  fixes a b :: nat
  assumes "0 < a" "k \<le> k'" "(x + k * b) mod (a + b) = (x + k' * b) mod (a + b)"
  shows "cycle_len a b dvd k' - k"
proof -
  from assms(2) have le: "x + k * b \<le> x + k' * b" by simp
  from assms(3) have "a + b dvd (x + k' * b) - (x + k * b)"
    using mod_eq_dvd_iff_nat [OF le, of "a + b"] by simp
  moreover have "(x + k' * b) - (x + k * b) = (k' - k) * b"
    by (simp add: diff_mult_distrib)
  ultimately have "a + b dvd (k' - k) * b" by simp
  moreover have "b = (b div gcd a b) * gcd a b" by simp
  ultimately have "a + b dvd ((k' - k) * (b div gcd a b)) * gcd a b"
    by (metis mult.assoc)
  then have "cycle_len a b * gcd a b dvd ((k' - k) * (b div gcd a b)) * gcd a b"
    by (simp only: cyc_basic(3) [OF assms(1)])
  with cyc_basic(1) [OF assms(1), of b] have "cycle_len a b dvd (k' - k) * (b div gcd a b)"
    by simp
  with cyc_coprime [OF assms(1), of b] show ?thesis by (simp add: coprime_dvd_mult_left_iff)
qed

lemma cyc_distinct:
  fixes a b :: nat
  assumes "0 < a" "k < cycle_len a b" "k' < cycle_len a b"
    "(x + k * b) mod (a + b) = (x + k' * b) mod (a + b)"
  shows "k = k'"
proof (rule ccontr)
  assume ne: "k \<noteq> k'"
  show False
  proof (cases "k \<le> k'")
    case True
    from cyc_same_step [OF assms(1) True assms(4)] have "cycle_len a b dvd k' - k" .
    moreover from ne True assms have "0 < k' - k" "k' - k < cycle_len a b" by simp_all
    ultimately show False by (auto dest: dvd_imp_le)
  next
    case False
    then have le: "k' \<le> k" by simp
    from cyc_same_step [OF assms(1) le assms(4) [symmetric]] have "cycle_len a b dvd k - k'" .
    moreover from ne le assms have "0 < k - k'" "k - k' < cycle_len a b" by simp_all
    ultimately show False by (auto dest: dvd_imp_le)
  qed
qed

lemma cyc_mod_g:
  fixes a b :: nat
  assumes "i < gcd a b"
  shows "((a + i + k * b) mod (a + b)) mod gcd a b = i"
proof -
  have e: "a + i + k * b = i + (a + k * b)" by simp
  have z: "(a + k * b) mod gcd a b = 0" by (simp add: dvd_imp_mod_0)
  have "((a + i + k * b) mod (a + b)) mod gcd a b = (a + i + k * b) mod gcd a b"
    by (simp add: mod_mod_cancel)
  also have "\<dots> = (i + (a + k * b)) mod gcd a b" by (simp only: e)
  also have "\<dots> = (i mod gcd a b + (a + k * b) mod gcd a b) mod gcd a b"
    by (simp only: mod_add_eq)
  also have "\<dots> = i" using assms by (simp only: z) simp
  finally show ?thesis .
qed

lemma cyc_disjoint:
  fixes a b :: nat
  assumes "i < gcd a b" "i' < gcd a b"
    "(a + i + k * b) mod (a + b) = (a + i' + k' * b) mod (a + b)"
  shows "i = i'"
  using cyc_mod_g [OF assms(1), of k] cyc_mod_g [OF assms(2), of k'] assms(3) by simp

lemma cyc_cover:
  fixes a b :: nat
  assumes "0 < a" "r < a + b"
  shows "\<exists>i<gcd a b. \<exists>k<cycle_len a b. r = (a + i + k * b) mod (a + b)"
proof -
  let ?f = "\<lambda>(i, k). (a + i + k * b) mod (a + b)"
  let ?D = "{..<gcd a b} \<times> {..<cycle_len a b}"
  have inj: "inj_on ?f ?D"
  proof (rule inj_onI)
    fix x y
    assume xy: "x \<in> ?D" "y \<in> ?D" "?f x = ?f y"
    obtain i k where x: "x = (i, k)" by (cases x)
    obtain i' k' where y: "y = (i', k')" by (cases y)
    from xy x y have h: "i < gcd a b" "k < cycle_len a b" "i' < gcd a b" "k' < cycle_len a b"
      "(a + i + k * b) mod (a + b) = (a + i' + k' * b) mod (a + b)"
      by simp_all
    from h have ii: "i = i'" using cyc_disjoint [of i a b i' k k'] by simp
    with h have "k = k'" using cyc_distinct [OF assms(1), of k b k' "a + i"] by simp
    with ii x y show "x = y" by simp
  qed
  have sub: "?f ` ?D \<subseteq> {..<a + b}" using assms(1) by auto
  have "card (?f ` ?D) = card ?D" using inj by (rule card_image)
  also have "\<dots> = a + b" using cyc_basic(3) [OF assms(1), of b] by (simp add: mult.commute)
  finally have "card (?f ` ?D) = card {..<a + b}" by simp
  with sub have "?f ` ?D = {..<a + b}" by (intro card_subset_eq) simp_all
  with assms(2) have "r \<in> ?f ` ?D" by simp
  then show ?thesis by auto
qed

definition cyc_pos :: "nat \<Rightarrow> nat \<Rightarrow> nat \<Rightarrow> nat \<Rightarrow> nat \<Rightarrow> nat" where
  "cyc_pos ps a b i k = ps + (a + i + k * b) mod (a + b)"

lemma cyc_pos_range:
  "0 < a \<Longrightarrow> ps \<le> cyc_pos ps a b i k \<and> cyc_pos ps a b i k < ps + a + b"
  by (simp add: cyc_pos_def add.assoc)

lemma gcd_le_right: "0 < b \<Longrightarrow> gcd a b \<le> b" for a b :: nat
  by (simp add: dvd_imp_le)

lemma cyc_pos_0:
  assumes "0 < b" "i < gcd a b"
  shows "cyc_pos ps a b i 0 = ps + a + i"
proof -
  from gcd_le_right [OF assms(1), where a = a] assms(2) have "a + i < a + b" by simp
  then have "(a + i) mod (a + b) = a + i" by (rule mod_less)
  then show ?thesis by (simp add: cyc_pos_def)
qed

lemma cyc_pos_L:
  assumes "0 < a"
  shows "cyc_pos ps a b i (cycle_len a b) = cyc_pos ps a b i 0"
proof -
  have "cycle_len a b * b = cycle_len a b * (gcd a b * (b div gcd a b))" by simp
  also have "\<dots> = (a + b) * (b div gcd a b)"
    by (simp only: mult.assoc [symmetric] cyc_basic(3) [OF assms])
  finally have "cycle_len a b * b = (b div gcd a b) * (a + b)" by (simp add: mult.commute)
  then show ?thesis by (simp add: cyc_pos_def)
qed

lemma cyc_pos_step:
  assumes "0 < a"
  shows "next_pos (int (ps + a)) (int a) (int b) (int (cyc_pos ps a b i k))
         = int (cyc_pos ps a b i (Suc k))"
proof -
  let ?r = "(a + i + k * b) mod (a + b)"
  have r: "?r < a + b" using assms by simp
  have "a + i + Suc k * b = (a + i + k * b) + b" by simp
  then have nxt: "(a + i + Suc k * b) mod (a + b) = (?r + b) mod (a + b)"
    by (simp only: mod_add_left_eq)
  show ?thesis
  proof (cases "a \<le> ?r")
    case True
    then have "a + b \<le> ?r + b" by simp
    then have "(?r + b) mod (a + b) = (?r + b - (a + b)) mod (a + b)"
      by (rule le_mod_geq)
    also have "?r + b - (a + b) = ?r - a" by simp
    also have "(?r - a) mod (a + b) = ?r - a" using r by simp
    finally show ?thesis using True by (simp add: next_pos_def cyc_pos_def nxt del: mult_Suc)
  next
    case False
    then have "?r + b < a + b" by simp
    then have "(?r + b) mod (a + b) = ?r + b" by simp
    then show ?thesis using False by (simp add: next_pos_def cyc_pos_def nxt del: mult_Suc)
  qed
qed

lemma cyc_pos_inj:
  assumes "0 < a" "k < cycle_len a b" "k' < cycle_len a b"
    "cyc_pos ps a b i k = cyc_pos ps a b i k'"
  shows "k = k'"
  using cyc_distinct [OF assms(1-3), of "a + i"] assms(4) by (simp add: cyc_pos_def)

lemma cyc_pos_disj:
  assumes "i < gcd a b" "i' < gcd a b" "cyc_pos ps a b i k = cyc_pos ps a b i' k'"
  shows "i = i'"
  using cyc_disjoint [OF assms(1,2), of k k'] assms(3) by (simp add: cyc_pos_def)

lemma cyc_pos_cover:
  assumes "0 < a" "ps \<le> q" "q < ps + a + b"
  shows "\<exists>i<gcd a b. \<exists>k<cycle_len a b. q = cyc_pos ps a b i k"
proof -
  from assms have "q - ps < a + b" by simp
  from cyc_cover [OF assms(1) this] obtain i k where
    "i < gcd a b" "k < cycle_len a b" "q - ps = (a + i + k * b) mod (a + b)" by blast
  moreover from this assms(2) have "q = cyc_pos ps a b i k" by (simp add: cyc_pos_def)
  ultimately show ?thesis by blast
qed

lemma cycle_loop_done: "\<not> j < cl \<Longrightarrow> cycle_loop pe nn no cs cl j pos v = Inr v"
  by (subst cycle_loop.simps) simp

lemma cycle_loop_step_nat:
  assumes "0 < a" "j < L" "cyc_pos ps a b i (Suc j) < length X" "c < length X"
  shows "cycle_loop (int (ps + a)) (int a) (int b) (int c) (int L) (int j)
           (int (cyc_pos ps a b i j)) X =
         cycle_loop (int (ps + a)) (int a) (int b) (int c) (int L) (int (Suc j))
           (int (cyc_pos ps a b i (Suc j)))
           (X[cyc_pos ps a b i (Suc j) := X ! c, c := X ! cyc_pos ps a b i (Suc j)])"
proof -
  note st = cyc_pos_step [OF assms(1), of ps b i j]
  have j1: "int j + 1 = int (Suc j)" by simp
  show ?thesis
    apply (subst cycle_loop.simps)
    apply (simp only: st Let_def j1)
    using assms(2-4) apply (simp add: valid_index_def)
    done
qed

lemma cycle_loop_from:
  fixes A :: "'a list"
  assumes a: "0 < a" and b: "0 < b" and i: "i < gcd a b" and len: "ps + a + b \<le> length A"
    and j: "j < cycle_len a b"
    and inv: "length X = length A"
      "X ! (ps + a + i) = A ! cyc_pos ps a b i j"
      "\<forall>k. 1 \<le> k \<and> k \<le> j \<longrightarrow> X ! cyc_pos ps a b i k = A ! cyc_pos ps a b i (k - 1)"
      "\<forall>q<length A. (\<forall>k\<le>j. q \<noteq> cyc_pos ps a b i k) \<longrightarrow> X ! q = A ! q"
  shows "\<exists>Y. cycle_loop (int (ps + a)) (int a) (int b) (int (ps + a + i))
               (int (cycle_len a b)) (int j) (int (cyc_pos ps a b i j)) X = Inr Y \<and>
             length Y = length A \<and>
             (\<forall>k<cycle_len a b. Y ! cyc_pos ps a b i (Suc k) = A ! cyc_pos ps a b i k) \<and>
             (\<forall>q<length A. (\<forall>k<cycle_len a b. q \<noteq> cyc_pos ps a b i k) \<longrightarrow> Y ! q = A ! q)"
  using j inv
proof (induction "cycle_len a b - Suc j" arbitrary: j X)
  case 0
  let ?P = "cyc_pos ps a b i"
  let ?L = "cycle_len a b"
  let ?c = "ps + a + i"
  from 0 have jL: "Suc j = ?L" by simp
  have c0: "?P 0 = ?c" by (rule cyc_pos_0 [OF b i])
  have PL: "?P (Suc j) = ?c" using cyc_pos_L [OF a, of ps b i] jL c0 by simp
  have cl: "?c < length X" using i gcd_le_right [OF b, where a = a] len "0.prems"(2) by simp
  have "cycle_loop (int (ps + a)) (int a) (int b) (int ?c) (int ?L) (int j) (int (?P j)) X =
        cycle_loop (int (ps + a)) (int a) (int b) (int ?c) (int ?L) (int (Suc j))
           (int (?P (Suc j))) (X[?P (Suc j) := X ! ?c, ?c := X ! ?P (Suc j)])"
    using cl PL "0.prems"(1) by (intro cycle_loop_step_nat [OF a]) simp_all
  also have "X[?P (Suc j) := X ! ?c, ?c := X ! ?P (Suc j)] = X" by (simp add: PL)
  also have "cycle_loop (int (ps + a)) (int a) (int b) (int ?c) (int ?L) (int (Suc j))
           (int (?P (Suc j))) X = Inr X"
    using jL by (intro cycle_loop_done) simp
  finally have run: "cycle_loop (int (ps + a)) (int a) (int b) (int ?c) (int ?L) (int j)
      (int (?P j)) X = Inr X" .
  have f1: "\<forall>k<?L. X ! ?P (Suc k) = A ! ?P k"
  proof (intro allI impI)
    fix k assume "k < ?L"
    with jL have "k < j \<or> k = j" by auto
    then show "X ! ?P (Suc k) = A ! ?P k"
    proof
      assume "k < j"
      with "0.prems"(4) [rule_format, of "Suc k"] show ?thesis by simp
    next
      assume "k = j"
      with PL "0.prems"(3) show ?thesis by simp
    qed
  qed
  have f2: "\<forall>q<length A. (\<forall>k<?L. q \<noteq> ?P k) \<longrightarrow> X ! q = A ! q"
    using "0.prems"(5) jL by auto
  from run "0.prems"(2) f1 f2 show ?case by simp
next
  case (Suc d)
  let ?P = "cyc_pos ps a b i"
  let ?L = "cycle_len a b"
  let ?c = "ps + a + i"
  from Suc.hyps(2) have j1: "Suc j < ?L" by simp
  have c0: "?P 0 = ?c" by (rule cyc_pos_0 [OF b i])
  have cl: "?c < length X" using i gcd_le_right [OF b, where a = a] len Suc.prems(2) by simp
  have pl: "?P (Suc j) < length X"
    using cyc_pos_range [OF a, of ps b i "Suc j"] len Suc.prems(2) by simp
  have L0: "0 < ?L" using j1 by simp
  have ne_c: "?P (Suc j) \<noteq> ?c"
    using cyc_pos_inj [OF a j1 L0, of ps i] c0 by auto
  have ne_k: "?P (Suc j) \<noteq> ?P k" if "k \<le> j" for k
    using cyc_pos_inj [OF a j1, of k ps i] that j1 by auto
  have ne_kc: "?P k \<noteq> ?c" if "1 \<le> k" "k \<le> j" for k
    using cyc_pos_inj [OF a _ L0, of k ps i] that j1 c0 by auto
  let ?X' = "X[?P (Suc j) := X ! ?c, ?c := X ! ?P (Suc j)]"
  have step: "cycle_loop (int (ps + a)) (int a) (int b) (int ?c) (int ?L) (int j) (int (?P j)) X =
        cycle_loop (int (ps + a)) (int a) (int b) (int ?c) (int ?L) (int (Suc j))
           (int (?P (Suc j))) ?X'"
    using cl pl Suc.prems(1) by (intro cycle_loop_step_nat [OF a]) simp_all
  have i1: "length ?X' = length A" using Suc.prems(2) by simp
  have xp: "X ! ?P (Suc j) = A ! ?P (Suc j)"
    using Suc.prems(5) [rule_format, of "?P (Suc j)"] pl Suc.prems(2) ne_k by auto
  have i2: "?X' ! ?c = A ! ?P (Suc j)" using cl xp by simp
  have i3: "\<forall>k. 1 \<le> k \<and> k \<le> Suc j \<longrightarrow> ?X' ! ?P k = A ! ?P (k - 1)"
  proof (intro allI impI)
    fix k assume k: "1 \<le> k \<and> k \<le> Suc j"
    show "?X' ! ?P k = A ! ?P (k - 1)"
    proof (cases "k = Suc j")
      case True
      with ne_c pl Suc.prems(3) show ?thesis by simp
    next
      case False
      with k have kj: "1 \<le> k" "k \<le> j" by simp_all
      from ne_k [OF kj(2)] ne_kc [OF kj] have "?X' ! ?P k = X ! ?P k" by simp
      with Suc.prems(4) kj show ?thesis by simp
    qed
  qed
  have i4: "\<forall>q<length A. (\<forall>k\<le>Suc j. q \<noteq> ?P k) \<longrightarrow> ?X' ! q = A ! q"
  proof (intro allI impI)
    fix q assume q: "q < length A" "\<forall>k\<le>Suc j. q \<noteq> ?P k"
    from q(2) have "q \<noteq> ?P (Suc j)" "q \<noteq> ?c" using c0 by auto
    then have "?X' ! q = X ! q" by simp
    with Suc.prems(5) q show "?X' ! q = A ! q" by simp
  qed
  from Suc.hyps(2) have d: "d = ?L - Suc (Suc j)" by simp
  from Suc.hyps(1) [OF d j1 i1 i2 i3 i4] step show ?case by simp
qed

lemma next_pos_funpow:
  assumes "0 < a" "0 < b" "i < gcd a b"
  shows "(next_pos (int (ps + a)) (int a) (int b) ^^ k) (int (ps + a + i)) = int (cyc_pos ps a b i k)"
proof (induction k)
  case 0
  show ?case using cyc_pos_0 [OF assms(2,3), of ps] by simp
next
  case (Suc k)
  then show ?case using cyc_pos_step [OF assms(1), of ps b i k] by simp
qed

lemma cycle_loop_whole:
  fixes A :: "'a list"
  assumes a: "0 < a" and b: "0 < b" and i: "i < gcd a b" and len: "ps + a + b \<le> length A"
  shows "\<exists>Y. cycle_loop (int (ps + a)) (int a) (int b) (int (ps + a + i))
               (int (cycle_len a b)) 0 (int (ps + a + i)) A = Inr Y \<and>
             length Y = length A \<and>
             (\<forall>k<cycle_len a b. Y ! cyc_pos ps a b i (Suc k) = A ! cyc_pos ps a b i k) \<and>
             (\<forall>q<length A. (\<forall>k<cycle_len a b. q \<noteq> cyc_pos ps a b i k) \<longrightarrow> Y ! q = A ! q)"
proof -
  have c0: "cyc_pos ps a b i 0 = ps + a + i" by (rule cyc_pos_0 [OF b i])
  have L0: "0 < cycle_len a b" by (rule cyc_basic(4) [OF a])
  from cycle_loop_from [OF a b i len L0, of A] c0 show ?thesis by simp
qed

lemma permute_loop_done: "\<not> i < nc \<Longrightarrow> permute_loop pe nn no cl nc i v = Inr v"
  by (subst permute_loop.simps) simp

lemma permute_loop_step:
  "i < nc \<Longrightarrow> cycle_loop pe nn no (pe + i) cl 0 (pe + i) v = Inr v' \<Longrightarrow>
   permute_loop pe nn no cl nc i v = permute_loop pe nn no cl nc (i + 1) v'"
  by (subst permute_loop.simps) simp

lemma permute_loop_from:
  fixes A :: "'a list"
  assumes a: "0 < a" and b: "0 < b" and len: "ps + a + b \<le> length A"
    and i: "i \<le> gcd a b"
    and inv: "length X = length A"
      "\<forall>i'<i. \<forall>k<cycle_len a b. X ! cyc_pos ps a b i' (Suc k) = A ! cyc_pos ps a b i' k"
      "\<forall>q<length A. (\<forall>i'<i. \<forall>k<cycle_len a b. q \<noteq> cyc_pos ps a b i' k) \<longrightarrow> X ! q = A ! q"
  shows "\<exists>Y. permute_loop (int (ps + a)) (int a) (int b) (int (cycle_len a b))
               (int (gcd a b)) (int i) X = Inr Y \<and>
             length Y = length A \<and>
             (\<forall>i'<gcd a b. \<forall>k<cycle_len a b.
                Y ! cyc_pos ps a b i' (Suc k) = A ! cyc_pos ps a b i' k) \<and>
             (\<forall>q<length A. (\<forall>i'<gcd a b. \<forall>k<cycle_len a b. q \<noteq> cyc_pos ps a b i' k) \<longrightarrow>
                Y ! q = A ! q)"
  using i inv
proof (induction "gcd a b - i" arbitrary: i X)
  case 0
  then have "i = gcd a b" by simp
  with "0.prems" show ?case by (simp add: permute_loop_done)
next
  case (Suc d)
  let ?P = "cyc_pos ps a b"
  let ?L = "cycle_len a b"
  from Suc.hyps(2) have ig: "i < gcd a b" by simp
  from Suc.prems(2) len have lenX: "ps + a + b \<le> length X" by simp
  from cycle_loop_whole [OF a b ig lenX] obtain Z where
    run: "cycle_loop (int (ps + a)) (int a) (int b) (int (ps + a + i)) (int ?L) 0
            (int (ps + a + i)) X = Inr Z"
    and Z: "length Z = length X" "\<forall>k<?L. Z ! ?P i (Suc k) = X ! ?P i k"
      "\<forall>q<length X. (\<forall>k<?L. q \<noteq> ?P i k) \<longrightarrow> Z ! q = X ! q"
    by blast
  have inr: "?P i' k < length A" for i' k
    using cyc_pos_range [OF a, of ps b i' k] len by simp
  have j1: "length Z = length A" using Z(1) Suc.prems(2) by simp
  have j2: "\<forall>i'<Suc i. \<forall>k<?L. Z ! ?P i' (Suc k) = A ! ?P i' k"
  proof (intro allI impI)
    fix i' k assume h: "i' < Suc i" "k < ?L"
    show "Z ! ?P i' (Suc k) = A ! ?P i' k"
    proof (cases "i' = i")
      case True
      have "\<forall>i''<i. \<forall>k'<?L. ?P i k \<noteq> ?P i'' k'"
      proof (intro allI impI notI)
        fix i'' k' assume "i'' < i" and eq: "?P i k = ?P i'' k'"
        with ig have "i'' < gcd a b" by simp
        from cyc_pos_disj [OF ig this eq] \<open>i'' < i\<close> show False by simp
      qed
      with Suc.prems(4) inr have "X ! ?P i k = A ! ?P i k" by blast
      with Z(2) h True show ?thesis by simp
    next
      case False
      with h have lt: "i' < i" by simp
      with ig have i'g: "i' < gcd a b" by simp
      have "\<forall>k'<?L. ?P i' (Suc k) \<noteq> ?P i k'"
      proof (intro allI impI notI)
        fix k' assume eq: "?P i' (Suc k) = ?P i k'"
        from cyc_pos_disj [OF i'g ig eq] lt show False by simp
      qed
      with Z(3) inr Suc.prems(2) have "Z ! ?P i' (Suc k) = X ! ?P i' (Suc k)" by simp
      with Suc.prems(3) lt h show ?thesis by simp
    qed
  qed
  have j3: "\<forall>q<length A. (\<forall>i'<Suc i. \<forall>k<?L. q \<noteq> ?P i' k) \<longrightarrow> Z ! q = A ! q"
  proof (intro allI impI)
    fix q assume q: "q < length A" "\<forall>i'<Suc i. \<forall>k<?L. q \<noteq> ?P i' k"
    then have "Z ! q = X ! q" using Z(3) Suc.prems(2) by simp
    moreover from q have "X ! q = A ! q" using Suc.prems(4) by simp
    ultimately show "Z ! q = A ! q" by simp
  qed
  from Suc.hyps(2) have d: "d = gcd a b - Suc i" by simp
  from ig have "Suc i \<le> gcd a b" by simp
  from Suc.hyps(1) [OF d this j1 j2 j3]
  have "\<exists>Y. permute_loop (int (ps + a)) (int a) (int b) (int ?L) (int (gcd a b)) (int (Suc i)) Z
               = Inr Y \<and> length Y = length A \<and>
             (\<forall>i'<gcd a b. \<forall>k<?L. Y ! ?P i' (Suc k) = A ! ?P i' k) \<and>
             (\<forall>q<length A. (\<forall>i'<gcd a b. \<forall>k<?L. q \<noteq> ?P i' k) \<longrightarrow> Y ! q = A ! q)" .
  moreover have "permute_loop (int (ps + a)) (int a) (int b) (int ?L) (int (gcd a b)) (int i) X
      = permute_loop (int (ps + a)) (int a) (int b) (int ?L) (int (gcd a b)) (int i + 1) Z"
    using ig run by (intro permute_loop_step) (simp_all add: add.assoc)
  moreover have "int i + 1 = int (Suc i)" by simp
  ultimately show ?case by simp
qed

lemma nth_append_at: "length xs = n \<Longrightarrow> (xs @ ys) ! (n + u) = ys ! u"
  by (simp add: nth_append)

lemma nth_append_before: "t < length xs \<Longrightarrow> (xs @ ys) ! t = xs ! t"
  by (simp add: nth_append)

lemma nth_rotated:
  fixes v :: "'a list"
  assumes len: "ps + a + b \<le> length v" and t: "t < length v"
  shows "(take ps v @ take b (drop (ps + a) v) @ take a (drop ps v) @ drop (ps + a + b) v) ! t =
           (if t < ps then v ! t
            else if t < ps + b then v ! (t + a)
            else if t < ps + a + b then v ! (t - b)
            else v ! t)"
proof -
  let ?x1 = "take ps v" and ?x2 = "take b (drop (ps + a) v)" and ?x3 = "take a (drop ps v)"
    and ?x4 = "drop (ps + a + b) v"
  have l: "length ?x1 = ps" "length ?x2 = b" "length ?x3 = a" using len by simp_all
  consider "t < ps" | "ps \<le> t" "t < ps + b" | "ps + b \<le> t" "t < ps + a + b" | "ps + a + b \<le> t"
    by linarith
  then show ?thesis
  proof cases
    case 1
    then have "(?x1 @ ?x2 @ ?x3 @ ?x4) ! t = ?x1 ! t"
      by (intro nth_append_before) (simp only: l)
    with 1 show ?thesis by simp
  next
    case 2
    then obtain u where u: "t = ps + u" "u < b" by (metis le_Suc_ex nat_add_left_cancel_less)
    have "(?x1 @ ?x2 @ ?x3 @ ?x4) ! (ps + u) = (?x2 @ ?x3 @ ?x4) ! u"
      by (rule nth_append_at [OF l(1)])
    also have "\<dots> = ?x2 ! u" using u(2) by (intro nth_append_before) (simp only: l)
    also have "\<dots> = v ! (ps + a + u)" using u(2) len by simp
    also have "ps + a + u = t + a" using u by simp
    finally show ?thesis using 2 u(1) by simp
  next
    case 3
    then obtain u where u: "t = ps + (b + u)" "u < a"
      by (metis le_Suc_ex nat_add_left_cancel_less add.assoc add.commute)
    have "(?x1 @ ?x2 @ ?x3 @ ?x4) ! (ps + (b + u)) = (?x2 @ ?x3 @ ?x4) ! (b + u)"
      by (rule nth_append_at [OF l(1)])
    also have "\<dots> = (?x3 @ ?x4) ! u" by (rule nth_append_at [OF l(2)])
    also have "\<dots> = ?x3 ! u" using u(2) by (intro nth_append_before) (simp only: l)
    also have "\<dots> = v ! (ps + u)" using u(2) len by simp
    also have "ps + u = t - b" using u by simp
    finally show ?thesis using 3 u(1) by simp
  next
    case 4
    then obtain u where u: "t = ps + (b + (a + u))" by (metis le_Suc_ex add.assoc add.commute)
    have "(?x1 @ ?x2 @ ?x3 @ ?x4) ! (ps + (b + (a + u))) = (?x2 @ ?x3 @ ?x4) ! (b + (a + u))"
      by (rule nth_append_at [OF l(1)])
    also have "\<dots> = (?x3 @ ?x4) ! (a + u)" by (rule nth_append_at [OF l(2)])
    also have "\<dots> = ?x4 ! u" by (rule nth_append_at [OF l(3)])
    also have "\<dots> = v ! (ps + a + b + u)" using len by simp
    also have "ps + a + b + u = t" using u by simp
    finally show ?thesis using 4 u by simp
  qed
qed

lemma permute_loop_rotate:
  fixes v :: "'a list"
  assumes a: "0 < a" and b: "0 < b" and len: "ps + a + b \<le> length v"
  shows "permute_loop (int (ps + a)) (int a) (int b) (int (cycle_len a b)) (int (gcd a b)) 0 v =
           Inr (take ps v @ take b (drop (ps + a) v) @ take a (drop ps v) @ drop (ps + a + b) v)"
proof -
  let ?P = "cyc_pos ps a b"
  let ?L = "cycle_len a b"
  from permute_loop_from [OF a b len, of 0 v] obtain Y where
    run: "permute_loop (int (ps + a)) (int a) (int b) (int ?L) (int (gcd a b)) 0 v = Inr Y"
    and Y: "length Y = length v"
      "\<forall>i'<gcd a b. \<forall>k<?L. Y ! ?P i' (Suc k) = v ! ?P i' k"
      "\<forall>q<length v. (\<forall>i'<gcd a b. \<forall>k<?L. q \<noteq> ?P i' k) \<longrightarrow> Y ! q = v ! q"
    by auto
  have moved: "Y ! (ps + (r + b) mod (a + b)) = v ! (ps + r)" if "r < a + b" for r
  proof -
    from that cyc_pos_cover [OF a, of ps "ps + r" b] obtain i k where
      ik: "i < gcd a b" "k < ?L" "ps + r = ?P i k" by auto
    then have r: "r = (a + i + k * b) mod (a + b)" by (simp add: cyc_pos_def)
    have "a + i + Suc k * b = (a + i + k * b) + b" by simp
    then have "(a + i + Suc k * b) mod (a + b) = (r + b) mod (a + b)"
      unfolding r by (simp only: mod_add_left_eq)
    then have "?P i (Suc k) = ps + (r + b) mod (a + b)" by (simp only: cyc_pos_def)
    with Y(2) ik show ?thesis by metis
  qed
  have kept: "Y ! q = v ! q" if "q < length v" "q < ps \<or> ps + a + b \<le> q" for q
  proof -
    have "\<forall>i'<gcd a b. \<forall>k<?L. q \<noteq> ?P i' k"
      using cyc_pos_range [OF a, of ps b] that(2) by (metis not_less)
    with Y(3) that(1) show ?thesis by simp
  qed
  have "Y = take ps v @ take b (drop (ps + a) v) @ take a (drop ps v) @ drop (ps + a + b) v"
    (is "Y = ?R")
  proof (rule nth_equalityI)
    show "length Y = length ?R" using Y(1) len by simp
  next
    fix t assume "t < length Y"
    with Y(1) have t: "t < length v" by simp
    consider "t < ps" | "ps \<le> t" "t < ps + b" | "ps + b \<le> t" "t < ps + a + b" | "ps + a + b \<le> t"
      by linarith
    then show "Y ! t = ?R ! t"
    proof cases
      case 1
      with kept [OF t] nth_rotated [OF len t] show ?thesis by simp
    next
      case 2
      let ?r = "t - ps + a"
      from 2 have r: "?r < a + b" by simp
      have "?r + b = (t - ps) + (a + b)" by simp
      then have "(?r + b) mod (a + b) = ((t - ps) + (a + b)) mod (a + b)" by (simp only:)
      also have "\<dots> = (t - ps) mod (a + b)" by (simp only: mod_add_self2)
      also have "\<dots> = t - ps" using 2 by simp
      finally have "ps + (?r + b) mod (a + b) = t" using 2 by simp
      with moved [OF r] have "Y ! t = v ! (ps + ?r)" by (simp only:)
      moreover have "ps + ?r = t + a" using 2 by simp
      ultimately show ?thesis using 2 nth_rotated [OF len t] by simp
    next
      case 3
      let ?r = "t - ps - b"
      from 3 have r: "?r < a + b" by simp
      from 3 have "(?r + b) mod (a + b) = t - ps" by simp
      then have "ps + (?r + b) mod (a + b) = t" using 3 by simp
      with moved [OF r] have "Y ! t = v ! (ps + ?r)" by (simp only:)
      moreover have "ps + ?r = t - b" using 3 by simp
      ultimately show ?thesis using 3 nth_rotated [OF len t] by simp
    next
      case 4
      with kept [OF t] nth_rotated [OF len t] show ?thesis by simp
    qed
  qed
  with run show ?thesis by simp
qed

lemma permute_args_setup:
  assumes "0 \<le> ps" "ps < pe" "pe < oe" "oe \<le> int (length v)"
  shows "\<exists>n a b. 0 < a \<and> 0 < b \<and> n + a + b \<le> length v \<and>
           ps = int n \<and> pe = int (n + a) \<and> oe = int (n + a + b)"
proof (intro exI conjI)
  show "ps = int (nat ps)" "pe = int (nat ps + nat (pe - ps))"
    "oe = int (nat ps + nat (pe - ps) + nat (oe - pe))"
    "0 < nat (pe - ps)" "0 < nat (oe - pe)"
    "nat ps + nat (pe - ps) + nat (oe - pe) \<le> length v"
    using assms by simp_all
qed

lemma gcd_c_nat: "0 < b \<Longrightarrow> gcd_c (int a) (int b) = Inr (int (gcd a b))"
  by (simp add: gcd_c_gcd)

lemma permute_args_value:
  assumes "0 \<le> ps" "ps < pe" "pe < oe" "oe \<le> int (length v)"
  shows "permute_args ps pe oe v =
           Inr (take (nat ps) v @ take (nat (oe - pe)) (drop (nat pe) v) @
                take (nat (pe - ps)) (drop (nat ps) v) @ drop (nat oe) v)"
proof -
  from permute_args_setup [OF assms] obtain n a b where
    ab: "0 < a" "0 < b" and len: "n + a + b \<le> length v"
    and pse: "ps = int n" "pe = int (n + a)" "oe = int (n + a + b)"
    by blast
  have d: "int (n + a) - int n = int a" "int (n + a + b) - int (n + a) = int b"
    "int (n + a + b) - int n = int (a + b)"
    by simp_all
  have g0: "int (gcd a b) \<noteq> 0" using ab by simp
  have cl: "c_div (int (a + b)) (int (gcd a b)) = int (cycle_len a b)"
    using ab by (simp add: c_div_nonneg cycle_len_def zdiv_int)
  show ?thesis
    unfolding pse permute_args_def Let_def d nat_int
    using permute_loop_rotate [OF ab len] gcd_c_nat [OF ab(2), of a] g0 cl
    by (simp del: of_nat_add)
qed

text \<open>
  C1. For \<open>0 \<le> panonopt_start < panonopt_end < opt_end \<le> length v\<close>, \<open>permute_args\<close>
  returns the vector with the block \<open>[panonopt_end, opt_end)\<close> (the options) first, then
  the block \<open>[panonopt_start, panonopt_end)\<close> (the operands), each in its original order,
  and every position outside \<open>[panonopt_start, opt_end)\<close> unchanged.  The number of cycles
  the code walks is the greatest common divisor of the two block lengths, and the index
  sequences of two different cycles (the iterates of \<open>next_pos\<close> from their start
  indices) never meet.
\<close>

theorem permute_args_rotates:
  assumes "0 \<le> ps" "ps < pe" "pe < oe" "oe \<le> int (length v)"
  shows "permute_args ps pe oe v =
           Inr (take (nat ps) v @ take (nat (oe - pe)) (drop (nat pe) v) @
                take (nat (pe - ps)) (drop (nat ps) v) @ drop (nat oe) v) \<and>
         gcd_c (pe - ps) (oe - pe) = Inr (gcd (pe - ps) (oe - pe)) \<and>
         (\<forall>i i' k k'. 0 \<le> i \<and> i < gcd (pe - ps) (oe - pe) \<and>
                       0 \<le> i' \<and> i' < gcd (pe - ps) (oe - pe) \<and> i \<noteq> i' \<longrightarrow>
            (next_pos pe (pe - ps) (oe - pe) ^^ k) (pe + i) \<noteq>
            (next_pos pe (pe - ps) (oe - pe) ^^ k') (pe + i'))"
proof -
  from permute_args_setup [OF assms] obtain n a b where
    ab: "0 < a" "0 < b" and len: "n + a + b \<le> length v"
    and pse: "ps = int n" "pe = int (n + a)" "oe = int (n + a + b)"
    by blast
  have df: "pe - ps = int a" "oe - pe = int b" by (simp_all add: pse)
  have 2: "gcd_c (pe - ps) (oe - pe) = Inr (gcd (pe - ps) (oe - pe))"
    unfolding df using gcd_c_nat [OF ab(2), of a] by simp
  have 3: "(next_pos pe (pe - ps) (oe - pe) ^^ k) (pe + i) \<noteq>
            (next_pos pe (pe - ps) (oe - pe) ^^ k') (pe + i')"
    if h: "0 \<le> i" "i < gcd (pe - ps) (oe - pe)" "0 \<le> i'" "i' < gcd (pe - ps) (oe - pe)" "i \<noteq> i'"
    for i i' k k'
  proof -
    from h have i: "nat i < gcd a b" "i = int (nat i)" and i': "nat i' < gcd a b" "i' = int (nat i')"
      unfolding df by simp_all
    have e1: "(next_pos (int (n + a)) (int a) (int b) ^^ k) (int (n + a + nat i)) =
            int (cyc_pos n a b (nat i) k)"
      by (rule next_pos_funpow [OF ab i(1)])
    have e2: "(next_pos (int (n + a)) (int a) (int b) ^^ k') (int (n + a + nat i')) =
            int (cyc_pos n a b (nat i') k')"
      by (rule next_pos_funpow [OF ab i'(1)])
    have ne: "cyc_pos n a b (nat i) k \<noteq> cyc_pos n a b (nat i') k'"
      using cyc_pos_disj [OF i(1) i'(1), of n k k'] h(1,3,5) by auto
    have p: "pe + i = int (n + a + nat i)" "pe + i' = int (n + a + nat i')"
      using i(2) i'(2) pse(2) by simp_all
    show ?thesis unfolding df p unfolding pse(2) e1 e2 using ne by simp
  qed
  from permute_args_value [OF assms] 2 3 show ?thesis by blast
qed

theorem permute_args_rotates_witness:
  "(0::int) \<le> 1 \<and> (1::int) < 3 \<and> (3::int) < 6 \<and>
   6 \<le> int (length [''p'', ''x'', ''y'', ''-a'', ''-b'', ''-c'', ''z'']) \<and>
   permute_args 1 3 6 [''p'', ''x'', ''y'', ''-a'', ''-b'', ''-c'', ''z''] =
     Inr [''p'', ''-a'', ''-b'', ''-c'', ''x'', ''y'', ''z''] \<and>
   gcd_c (3 - 1) (6 - 3) = Inr 1"
proof -
  have h: "(0::int) \<le> 1" "(1::int) < 3" "(3::int) < 6"
    "6 \<le> int (length [''p'', ''x'', ''y'', ''-a'', ''-b'', ''-c'', ''z''])"
    by simp_all
  from permute_args_rotates [OF h] h show ?thesis by simp
qed


subsection \<open>The scanning loop\<close>


text \<open>
  How a call may lower \<open>optind\<close>.  \<open>compensated s s'\<close>: the call made a \<open>permute_args\<close>
  call, and \<open>optind\<close> ends at the third argument of the latest one minus the length of
  the operand block it moved (\<open>optind -= nonopt_end - nonopt_start\<close>, directly or through
  \<open>nonopt_start\<close>).  \<open>restored s s'\<close>: no \<open>permute_args\<close> call was made and \<open>optind\<close> ends
  at the \<open>nonopt_start\<close> the call started with.
\<close>

definition compensated :: "scanner \<Rightarrow> scanner \<Rightarrow> bool" where
  "compensated s s' =
     (\<exists>a b c rest. permute_calls s' = (a, b, c) # rest \<and>
        length (permute_calls s) < length (permute_calls s') \<and> optind s' = c - (b - a))"

definition restored :: "scanner \<Rightarrow> scanner \<Rightarrow> bool" where
  "restored s s' =
     (permute_calls s' = permute_calls s \<and> nonopt_start s \<noteq> - 1 \<and> optind s' = nonopt_start s)"

definition cursor_inv :: "scanner \<Rightarrow> scanner \<Rightarrow> bool" where
  "cursor_inv s0 t =
     (optind s0 \<le> optind t \<and> length (permute_calls s0) \<le> length (permute_calls t) \<and>
      (nonopt_start t \<noteq> - 1 \<and> nonopt_end t = - 1 \<longrightarrow>
         (permute_calls t = permute_calls s0 \<and> nonopt_start t = nonopt_start s0) \<or>
         (\<exists>a b c rest. permute_calls t = (a, b, c) # rest \<and>
            length (permute_calls s0) < length (permute_calls t) \<and>
            nonopt_start t = c - (b - a)) \<or>
         optind s0 \<le> nonopt_start t))"

definition cursor_post :: "scanner \<Rightarrow> control \<Rightarrow> scanner \<Rightarrow> bool" where
  "cursor_post s0 c u =
     (length (permute_calls s0) \<le> length (permute_calls u) \<and>
      (c \<noteq> Return (- 1) \<longrightarrow> optind s0 \<le> optind u) \<and>
      (optind u < optind s0 \<longrightarrow> compensated s0 u \<or> restored s0 u))"

lemma scan_step_cursor_goto:
  assumes inv: "cursor_inv s0 t" and st: "scan_step p nargc options t = Inr (Goto_start, u)"
  shows "cursor_inv s0 u"
  using st
proof (cases rule: scan_stepE)
  case fall
  then show ?thesis by simp
next
  case end_of_vector
  from end_of_vector_Inr [OF end_of_vector(3)] show ?thesis by simp
next
  case (non_option tok)
  from found_non_option_Inr [OF non_option(5)] inv show ?thesis
    by (auto simp: cursor_inv_def INORDER_def split: if_splits)
next
  case (option tok)
  from found_option_Inr [OF option(6)] show ?thesis by simp
qed

lemma scan_step_cursor_final:
  assumes inv: "cursor_inv s0 t" and st: "scan_step p nargc options t = Inr (c, u)"
    and c: "c \<noteq> Goto_start"
  shows "cursor_post s0 c u"
  using st
proof (cases rule: scan_stepE)
  case fall
  with inv show ?thesis by (simp add: cursor_inv_def cursor_post_def)
next
  case end_of_vector
  from end_of_vector_Inr [OF end_of_vector(3)] inv show ?thesis
    by (auto simp: cursor_inv_def cursor_post_def compensated_def restored_def split: if_splits)
next
  case (non_option tok)
  from found_non_option_Inr [OF non_option(5)] inv c show ?thesis
    by (auto simp: cursor_inv_def cursor_post_def split: if_splits)
next
  case (option tok)
  from found_option_Inr [OF option(6)] inv show ?thesis
    by (auto simp: cursor_inv_def cursor_post_def)
qed

lemma start_loop_cursor:
  assumes "start_loop p nargc options s0 = Inr (c, u)"
  shows "cursor_post s0 c u"
proof (rule start_loop_rule [where J = "cursor_inv s0" and Q = "cursor_post s0", OF _ _ _ assms])
  show "cursor_inv s0 s0" by (simp add: cursor_inv_def)
qed (fact scan_step_cursor_goto scan_step_cursor_final)+

lemma option_letter_optind:
  "option_letter nargc options s = Inr (r, s') \<Longrightarrow> optind s \<le> optind s'"
  by (auto simp: option_letter_def Let_def warnx_def split: if_splits sum.splits option.splits)

lemma long_option_cursor:
  assumes "long_option options lo idx s = Inr (r, s')"
  shows "length (permute_calls s) \<le> length (permute_calls s') \<and>
         (optind s \<le> optind s' \<or> (r = - 1 \<and> compensated s s'))"
proof (cases "place s = []")
  case True
  with assms show ?thesis
    by (auto simp: long_option_def Let_def call_permute_args_Inr compensated_def
             split: if_splits sum.splits)
next
  case False
  with assms have "permute_calls s' = permute_calls s \<and> optind s \<le> optind s'"
    by (cases "PRINT_ERROR s options")
       (auto simp: long_option_def Let_def warnx_def
             split: if_splits sum.splits prod.splits option.splits)
  then show ?thesis by simp
qed

definition ret_optind :: "fault + (int \<times> scanner) \<Rightarrow> (int \<times> int) option" where
  "ret_optind res = (case res of Inl f \<Rightarrow> None | Inr (r, s) \<Rightarrow> Some (r, optind s))"

text \<open>
  C7. A call that leaves \<open>optind\<close> lower than it found it has returned \<open>-1\<close>, and the new
  value is the permutation engine's compensated cursor or the restored \<open>nonopt_start\<close>.
  Every other path (option letters, long options and their error returns, operands
  returned in order) leaves \<open>optind\<close> where it was or higher.
\<close>

theorem optind_lowered_only_by_permutation:
  assumes "getopt_long p nargc options lo idx s = Inr (r, s')" and "optind s' < optind s"
  shows "r = - 1 \<and> (compensated s s' \<or> restored s s')"
proof -
  define s0 where "s0 = enter s"
  have s0: "optind s \<le> optind s0" "permute_calls s0 = permute_calls s"
    "nonopt_start s0 = nonopt_start s \<or> nonopt_start s0 = - 1"
    by (simp_all add: s0_def enter_def Let_def)
  from assms(1) obtain r1 s1 where gi: "getopt_internal p nargc options s = Inr (r1, s1)"
    and gl: "if r1 = - 2 then long_option options lo idx s1 = Inr (r, s') else r = r1 \<and> s' = s1"
    by (auto simp: getopt_long_def split: sum.splits if_splits)
  from gi obtain c u where sl: "start_loop p nargc options s0 = Inr (c, u)"
    and ol: "(c = Return r1 \<and> s1 = u) \<or>
             ((\<forall>x. c \<noteq> Return x) \<and> option_letter nargc options u = Inr (r1, s1))"
    unfolding getopt_internal_def s0_def
    by (auto split: sum.splits control.splits)
  note post = start_loop_cursor [OF sl]
  have comp: "compensated s0 x = compensated s x" "restored s0 x \<Longrightarrow> restored s x" for x
    using s0 by (auto simp: compensated_def restored_def)
  have mid: "length (permute_calls s) \<le> length (permute_calls s1) \<and>
             (optind s \<le> optind s1 \<or> (r1 = - 1 \<and> (compensated s s1 \<or> restored s s1)))"
    using ol
  proof
    assume "c = Return r1 \<and> s1 = u"
    with post s0 comp show ?thesis by (auto simp: cursor_post_def)
  next
    assume h: "(\<forall>x. c \<noteq> Return x) \<and> option_letter nargc options u = Inr (r1, s1)"
    then have "optind u \<le> optind s1" "permute_calls s1 = permute_calls u"
      by (auto dest: option_letter_optind option_letter_frame(6))
    moreover from h post have "optind s0 \<le> optind u"
      "length (permute_calls s0) \<le> length (permute_calls u)"
      by (simp_all add: cursor_post_def)
    ultimately show ?thesis using s0 by simp
  qed
  show ?thesis
  proof (cases "r1 = - 2")
    case True
    with gl have lo: "long_option options lo idx s1 = Inr (r, s')" by simp
    from True mid have m: "length (permute_calls s) \<le> length (permute_calls s1)"
      "optind s \<le> optind s1" by simp_all
    from long_option_cursor [OF lo] assms(2) m have "r = - 1" "compensated s1 s'" by auto
    with m(1) show ?thesis by (auto simp: compensated_def)
  next
    case False
    with gl have "r = r1" "s' = s1" by simp_all
    with mid assms(2) show ?thesis by auto
  qed
qed

theorem optind_lowered_only_by_permutation_witness:
  "\<exists>r s'. getopt_long False 3 ''a'' [] None
             ((initial [''prog'', ''x'', ''-a''] zero_mem)
                \<lparr>optind := 3, nonopt_start := 1, nonopt_end := 2\<rparr>) = Inr (r, s') \<and>
          optind s' < optind ((initial [''prog'', ''x'', ''-a''] zero_mem)
                \<lparr>optind := 3, nonopt_start := 1, nonopt_end := 2\<rparr>) \<and>
          r = - 1 \<and> optind s' = 2 \<and>
          compensated ((initial [''prog'', ''x'', ''-a''] zero_mem)
                \<lparr>optind := 3, nonopt_start := 1, nonopt_end := 2\<rparr>) s'"
proof -
  let ?s = "(initial [''prog'', ''x'', ''-a''] zero_mem)
                \<lparr>optind := 3, nonopt_start := 1, nonopt_end := 2\<rparr>"
  have e: "ret_optind (getopt_long False 3 ''a'' [] None ?s) = Some (- 1, 2)"
    by code_simp
  then obtain r s' where run: "getopt_long False 3 ''a'' [] None ?s = Inr (r, s')"
    and r: "r = - 1" "optind s' = 2"
    by (auto simp: ret_optind_def split: sum.splits)
  have lt: "optind s' < optind ?s" using r by simp
  from optind_lowered_only_by_permutation [OF run lt] have "compensated ?s s' \<or> restored ?s s'"
    by simp
  moreover have "\<not> restored ?s s'" using r by (simp add: restored_def initial_def)
  ultimately show ?thesis using run r lt by blast
qed


subsection \<open>Arguments of the permutation calls\<close>

text \<open>
  The order the scanner keeps between its three cursors.  \<open>nonopt_start\<close> and \<open>nonopt_end\<close>
  are either \<open>-1\<close> or delimit a non-empty block of skipped operands that lies below \<open>optind\<close>;
  whenever the next call will look at a new token (\<open>place\<close> is empty) and the block is
  closed, at least one option lies between the end of the block and \<open>optind\<close>.  A pending
  \<open>optreset\<close> makes the next call forget both cursors, so nothing is required of them then.
  \<open>calls_ok s s'\<close>: the \<open>permute_args\<close> calls made between \<open>s\<close> and \<open>s'\<close> all had strictly
  increasing arguments.
\<close>

definition ordered_weak :: "scanner \<Rightarrow> bool" where
  "ordered_weak s =
     ((nonopt_start s = - 1 \<longrightarrow> nonopt_end s = - 1) \<and>
      (nonopt_start s \<noteq> - 1 \<longrightarrow> 0 < nonopt_start s \<and> nonopt_start s < optind s) \<and>
      (nonopt_end s \<noteq> - 1 \<longrightarrow> nonopt_start s < nonopt_end s \<and> nonopt_end s \<le> optind s))"

definition ordered :: "scanner \<Rightarrow> bool" where
  "ordered s =
     (ordered_weak s \<and>
      (nonopt_end s \<noteq> - 1 \<longrightarrow> optreset s \<noteq> 0 \<or> place s = [] \<longrightarrow> nonopt_end s < optind s))"

definition scan_inv :: "scanner \<Rightarrow> bool" where
  "scan_inv s = (optreset s \<noteq> 0 \<or> ordered s)"

definition calls_ok :: "scanner \<Rightarrow> scanner \<Rightarrow> bool" where
  "calls_ok s s' =
     (\<exists>new. permute_calls s' = new @ permute_calls s \<and>
        (\<forall>(a, b, c)\<in>set new. a < b \<and> b < c))"

lemma calls_ok_same: "permute_calls s' = permute_calls s \<Longrightarrow> calls_ok s s'"
  by (simp add: calls_ok_def)

lemma calls_ok_trans: "calls_ok s t \<Longrightarrow> calls_ok t u \<Longrightarrow> calls_ok s u"
  unfolding calls_ok_def
  by (elim exE conjE, rule_tac x = "newa @ new" in exI) auto

lemma calls_ok_call:
  "permute_calls s' = (a, b, c) # permute_calls s \<Longrightarrow> a < b \<Longrightarrow> b < c \<Longrightarrow> calls_ok s s'"
  unfolding calls_ok_def by (rule exI [of _ "[(a, b, c)]"]) simp

lemma cycle_loop_fault:
  "cycle_loop pe nn no cs cl j pos v = Inl f \<Longrightarrow> f = BadIndex"
proof (induction pe nn no cs cl j pos v rule: cycle_loop.induct)
  case (1 pe nn no cs cl j pos v)
  from "1.prems" show ?case
    by (subst (asm) cycle_loop.simps) (auto simp: Let_def split: if_splits dest: "1.IH" [OF _ refl])
qed

lemma permute_loop_fault:
  "permute_loop pe nn no cl nc i v = Inl f \<Longrightarrow> f = BadIndex"
proof (induction pe nn no cl nc i v rule: permute_loop.induct)
  case (1 pe nn no cl nc i v)
  from "1.prems" show ?case
    by (subst (asm) permute_loop.simps)
       (auto split: if_splits sum.splits dest: "1.IH" cycle_loop_fault)
qed

lemma permute_args_fault:
  assumes "permute_args a b c v = Inl f" "a < b" "b < c"
  shows "f = BadIndex"
proof -
  from assms(2,3) have g: "gcd_c (b - a) (c - b) = Inr (gcd (b - a) (c - b))"
    by (simp add: gcd_c_gcd)
  from assms(2) have "b \<noteq> a" by simp
  with assms(1) g show ?thesis
    by (auto simp: permute_args_def Let_def split: if_splits dest: permute_loop_fault)
qed

lemma call_permute_args_fault:
  "call_permute_args s = Inl f \<Longrightarrow> nonopt_start s < nonopt_end s \<Longrightarrow>
   nonopt_end s < optind s \<Longrightarrow> f = BadIndex"
  by (auto simp: call_permute_args_def split: sum.splits dest: permute_args_fault)

definition order_inv :: "scanner \<Rightarrow> scanner \<Rightarrow> bool" where
  "order_inv s0 t = (ordered t \<and> optind t \<noteq> 0 \<and> calls_ok s0 t)"

definition order_post :: "scanner \<Rightarrow> control \<Rightarrow> scanner \<Rightarrow> bool" where
  "order_post s0 c u =
     (calls_ok s0 u \<and> optreset u = 0 \<and> optind u \<noteq> 0 \<and> ordered_weak u \<and>
      (c \<noteq> Return (- 2) \<longrightarrow> ordered u) \<and> (c = Fall_through \<longrightarrow> place u \<noteq> []))"

lemma argv_read_Some: "argv_read v i = Inr (Some tok) \<Longrightarrow> 0 \<le> i \<and> i < int (length v)"
  by (auto simp: argv_read_def split: if_splits)

lemma scan_step_order_goto:
  assumes inv: "order_inv s0 t" and st: "scan_step p nargc options t = Inr (Goto_start, u)"
  shows "order_inv s0 u"
  using st
proof (cases rule: scan_stepE)
  case fall
  then show ?thesis by simp
next
  case end_of_vector
  from end_of_vector_Inr [OF end_of_vector(3)] show ?thesis by simp
next
  case (non_option tok)
  note eff = found_non_option_Inr [OF non_option(5)]
  from argv_read_Some [OF non_option(3)] inv have pos: "0 < optind t"
    by (simp add: order_inv_def)
  from eff have mode: "\<not> IN_ORDER p options" "PERMUTE p options"
    by (auto simp: INORDER_def split: if_splits)
  from inv have o: "ordered t" and c0: "calls_ok s0 t" by (simp_all add: order_inv_def)
  show ?thesis
  proof (cases "nonopt_start t \<noteq> - 1 \<and> nonopt_end t \<noteq> - 1")
    case True
    with o non_option(1) have strict: "0 < nonopt_start t" "nonopt_start t < nonopt_end t"
      "nonopt_end t < optind t"
      by (auto simp: ordered_def ordered_weak_def)
    from eff mode True have e: "optind u = optind t + 1" "nonopt_end u = - 1"
      "permute_calls u = (nonopt_start t, nonopt_end t, optind t) # permute_calls t"
      "nonopt_start u = optind t - (nonopt_end t - nonopt_start t)"
      by simp_all
    from strict have "calls_ok t u" by (intro calls_ok_call [OF e(3)]) simp_all
    with c0 have "calls_ok s0 u" by (rule calls_ok_trans)
    moreover from e strict have "ordered u" by (simp add: ordered_def ordered_weak_def)
    ultimately show ?thesis using e(1) pos by (simp add: order_inv_def)
  next
    case False
    with eff mode have e: "optind u = optind t + 1"
      "nonopt_end u = (if nonopt_start t = - 1 then nonopt_end t else - 1)"
      "permute_calls u = permute_calls t"
      "nonopt_start u = (if nonopt_start t = - 1 then optind t else nonopt_start t)"
      by simp_all
    from e(3) c0 have "calls_ok s0 u" by (auto intro: calls_ok_trans calls_ok_same)
    moreover from e o pos False have "ordered u"
      by (auto simp: ordered_def ordered_weak_def)
    ultimately show ?thesis using e(1) pos by (simp add: order_inv_def)
  qed
next
  case (option tok)
  from found_option_Inr [OF option(6)] show ?thesis by simp
qed

lemma scan_step_order_final:
  assumes inv: "order_inv s0 t" and st: "scan_step p nargc options t = Inr (c, u)"
    and c: "c \<noteq> Goto_start"
  shows "order_post s0 c u"
proof -
  from inv have o: "ordered t" and c0: "calls_ok s0 t" and nz: "optind t \<noteq> 0"
    by (simp_all add: order_inv_def)
  from st show ?thesis
  proof (cases rule: scan_stepE)
    case fall
    with o c0 nz show ?thesis by (simp add: order_post_def ordered_def)
  next
    case end_of_vector
    note eff = end_of_vector_Inr [OF end_of_vector(3)]
    have "calls_ok t u"
    proof (cases "nonopt_end t \<noteq> - 1")
      case True
      with o end_of_vector(1) have lt: "nonopt_start t < nonopt_end t" "nonopt_end t < optind t"
        by (auto simp: ordered_def ordered_weak_def)
      from eff True have "permute_calls u =
          (nonopt_start t, nonopt_end t, optind t) # permute_calls t" by simp
      then show ?thesis using lt by (rule calls_ok_call)
    next
      case False
      with eff show ?thesis by (intro calls_ok_same) simp
    qed
    with c0 have "calls_ok s0 u" by (rule calls_ok_trans)
    moreover from eff have "ordered u" "ordered_weak u" by (simp_all add: ordered_def ordered_weak_def)
    moreover from eff o nz have "optind u \<noteq> 0"
      by (auto simp: ordered_def ordered_weak_def split: if_splits)
    ultimately show ?thesis using eff by (simp add: order_post_def)
  next
    case (non_option tok)
    note eff = found_non_option_Inr [OF non_option(5)]
    from argv_read_Some [OF non_option(3)] nz have pos: "0 < optind t" by simp
    from eff c have e: "optind t \<le> optind u" "permute_calls u = permute_calls t"
      "nonopt_start u = nonopt_start t" "nonopt_end u = nonopt_end t" "place u = []"
      "optreset u = 0" "c \<noteq> Return (- 2)" "c \<noteq> Fall_through"
      by (auto simp: INORDER_def split: if_splits)
    from e(2) c0 have "calls_ok s0 u" by (auto intro: calls_ok_trans calls_ok_same)
    moreover from e o non_option(1) have "ordered u"
      by (auto simp: ordered_def ordered_weak_def)
    ultimately show ?thesis using e pos by (simp add: order_post_def ordered_def)
  next
    case (option tok)
    note eff = found_option_Inr [OF option(6)]
    from argv_read_Some [OF option(3)] nz have pos: "0 < optind t" by simp
    from eff have e: "optind u = optind t" "permute_calls u = permute_calls t"
      "nonopt_start u = nonopt_start t" "optreset u = 0"
      "nonopt_end u = (if nonopt_start t \<noteq> - 1 \<and> nonopt_end t = - 1 then optind t
                         else nonopt_end t)"
      "c = Fall_through \<longrightarrow> place u = tl tok" "c = Return (- 2) \<or> c = Fall_through"
      by auto
    from e(2) c0 have "calls_ok s0 u" by (auto intro: calls_ok_trans calls_ok_same)
    moreover from e o have w: "ordered_weak u"
      by (auto simp: ordered_def ordered_weak_def)
    moreover from e option(5) have "c = Fall_through \<longrightarrow> place u \<noteq> []" by simp
    ultimately show ?thesis using e pos by (auto simp: order_post_def ordered_def)
  qed
qed

lemma scan_step_order_fault:
  assumes inv: "order_inv s0 t" and st: "scan_step p nargc options t = Inl f"
  shows "f \<noteq> DivByZero"
proof -
  from inv have o: "ordered t" by (simp add: order_inv_def)
  have strict: "nonopt_start t < nonopt_end t \<and> nonopt_end t < optind t"
    if "nonopt_end t \<noteq> - 1" "optreset t \<noteq> 0 \<or> place t = []"
    using o that by (auto simp: ordered_def ordered_weak_def)
  from st strict show ?thesis
    by (auto simp: scan_step_def end_of_vector_def found_non_option_def found_option_def
          Let_def argv_read_def
          split: if_splits sum.splits option.splits dest!: call_permute_args_fault)
qed

lemma start_loop_order:
  assumes "ordered s0" "optind s0 \<noteq> 0"
  shows "start_loop p nargc options s0 \<noteq> Inl DivByZero"
    and "start_loop p nargc options s0 = Inr (c, u) \<Longrightarrow> order_post s0 c u"
proof -
  from assms have j: "order_inv s0 s0" by (simp add: order_inv_def calls_ok_same)
  show "start_loop p nargc options s0 \<noteq> Inl DivByZero"
  proof
    assume "start_loop p nargc options s0 = Inl DivByZero"
    from start_loop_fault_rule [where J = "order_inv s0" and F = "\<lambda>f. f \<noteq> DivByZero",
        OF j scan_step_order_goto scan_step_order_fault this]
    show False by simp
  qed
  show "order_post s0 c u" if "start_loop p nargc options s0 = Inr (c, u)"
    by (rule start_loop_rule [where J = "order_inv s0" and Q = "order_post s0",
          OF j scan_step_order_goto scan_step_order_final that])
qed

lemma argv_read_fault: "argv_read v i = Inl f \<Longrightarrow> f = BadIndex"
  by (auto simp: argv_read_def split: if_splits)

lemma option_letter_effect:
  assumes "option_letter nargc options u = Inr (r, s')"
  shows "nonopt_start s' = nonopt_start u" "nonopt_end s' = nonopt_end u"
    "optind u \<le> optind s'" "r \<noteq> - 2 \<Longrightarrow> place s' = [] \<Longrightarrow> optind u < optind s'"
  using assms
  by (auto simp: option_letter_def Let_def warnx_def split: if_splits sum.splits option.splits)

lemma option_letter_fault: "option_letter nargc options u = Inl f \<Longrightarrow> f \<noteq> DivByZero"
  by (auto simp: option_letter_def Let_def warnx_def
           split: if_splits sum.splits option.splits dest: argv_read_fault)

lemma option_letter_order:
  assumes "ordered_weak u" "optreset u = 0" "option_letter nargc options u = Inr (r, s')"
  shows "ordered_weak s'" "r \<noteq> - 2 \<Longrightarrow> ordered s'" "optreset s' = 0"
    "permute_calls s' = permute_calls u"
proof -
  note eff = option_letter_effect [OF assms(3)]
  note fr = option_letter_frame [OF assms(3)]
  from fr assms(2) show "optreset s' = 0" "permute_calls s' = permute_calls u" by simp_all
  from assms(1) eff(1-3) show w: "ordered_weak s'" by (auto simp: ordered_weak_def)
  show "ordered s'" if "r \<noteq> - 2"
    using w eff(4) [OF that] eff(1-3) assms(1) \<open>optreset s' = 0\<close>
    by (auto simp: ordered_def ordered_weak_def)
qed

lemma long_option_effect:
  assumes "long_option options lo idx s1 = Inr (r, s')"
  shows "place s' = []" "optreset s' = optreset s1"
    "if place s1 = [] \<and> nonopt_end s1 \<noteq> - 1
     then permute_calls s' = (nonopt_start s1, nonopt_end s1, optind s1 + 1) # permute_calls s1 \<and>
          nonopt_start s' = - 1 \<and> nonopt_end s' = - 1
     else permute_calls s' = permute_calls s1 \<and> optind s1 < optind s' \<and>
          (if place s1 = [] then nonopt_start s' = - 1 \<and> nonopt_end s' = - 1
           else nonopt_start s' = nonopt_start s1 \<and> nonopt_end s' = nonopt_end s1)"
proof -
  show "place s' = []" "optreset s' = optreset s1"
    using assms
    by (cases "PRINT_ERROR s1 options";
        auto simp: long_option_def Let_def warnx_def call_permute_args_Inr
             split: if_splits sum.splits prod.splits option.splits)+
  show "if place s1 = [] \<and> nonopt_end s1 \<noteq> - 1
     then permute_calls s' = (nonopt_start s1, nonopt_end s1, optind s1 + 1) # permute_calls s1 \<and>
          nonopt_start s' = - 1 \<and> nonopt_end s' = - 1
     else permute_calls s' = permute_calls s1 \<and> optind s1 < optind s' \<and>
          (if place s1 = [] then nonopt_start s' = - 1 \<and> nonopt_end s' = - 1
           else nonopt_start s' = nonopt_start s1 \<and> nonopt_end s' = nonopt_end s1)"
  proof (cases "place s1 = []")
    case True
    with assms show ?thesis
      by (auto simp: long_option_def Let_def call_permute_args_Inr split: if_splits sum.splits)
  next
    case False
    with assms show ?thesis
      by (cases "PRINT_ERROR s1 options")
         (auto simp: long_option_def Let_def warnx_def
               split: if_splits sum.splits prod.splits option.splits)
  qed
qed

lemma long_option_fault:
  assumes "long_option options lo idx s1 = Inl f" "ordered_weak s1"
  shows "f \<noteq> DivByZero"
proof (cases "place s1 = []")
  case True
  from assms(2) have "nonopt_end s1 \<noteq> - 1 \<Longrightarrow>
      nonopt_start s1 < nonopt_end s1 \<and> nonopt_end s1 < optind s1 + 1"
    by (auto simp: ordered_weak_def)
  with assms(1) True show ?thesis
    by (auto simp: long_option_def Let_def split: if_splits sum.splits
             dest!: call_permute_args_fault)
next
  case False
  with assms(1) show ?thesis
    by (cases "PRINT_ERROR s1 options")
       (auto simp: long_option_def Let_def warnx_def
             split: if_splits sum.splits prod.splits option.splits dest: argv_read_fault)
qed

lemma long_option_order:
  assumes "ordered_weak s1" "optreset s1 = 0" "long_option options lo idx s1 = Inr (r, s')"
  shows "ordered s'" "calls_ok s1 s'" "optreset s' = 0"
proof -
  note eff = long_option_effect [OF assms(3)]
  from eff(2) assms(2) show "optreset s' = 0" by simp
  show "calls_ok s1 s'"
  proof (cases "place s1 = [] \<and> nonopt_end s1 \<noteq> - 1")
    case True
    with eff(3) have "permute_calls s' =
        (nonopt_start s1, nonopt_end s1, optind s1 + 1) # permute_calls s1" by simp
    moreover from True assms(1) have "nonopt_start s1 < nonopt_end s1"
      "nonopt_end s1 < optind s1 + 1"
      by (auto simp: ordered_weak_def)
    ultimately show ?thesis by (rule calls_ok_call)
  next
    case False
    with eff(3) show ?thesis by (intro calls_ok_same) (simp split: if_splits)
  qed
  from eff assms(1) show "ordered s'"
    by (auto simp: ordered_def ordered_weak_def split: if_splits)
qed

lemma ordered_enter: "scan_inv s \<Longrightarrow> ordered (enter s) \<and> optind (enter s) \<noteq> 0"
  by (auto simp: scan_inv_def enter_def Let_def ordered_def ordered_weak_def)

lemma scan_inv_initial: "scan_inv (initial v m)"
  by (simp add: scan_inv_def initial_def ordered_def ordered_weak_def)

lemma scan_inv_optreset: "r \<noteq> 0 \<Longrightarrow> scan_inv (s\<lparr>optreset := r\<rparr>)"
  by (simp add: scan_inv_def)

lemma getopt_internal_order:
  assumes "scan_inv s"
  shows "getopt_internal p nargc options s \<noteq> Inl DivByZero"
    and "getopt_internal p nargc options s = Inr (r1, s1) \<Longrightarrow>
           ordered_weak s1 \<and> optreset s1 = 0 \<and> (r1 \<noteq> - 2 \<longrightarrow> ordered s1) \<and> calls_ok s s1"
proof -
  note e = ordered_enter [OF assms]
  note sl = start_loop_order [OF e [THEN conjunct1] e [THEN conjunct2], of p nargc options]
  have pc: "permute_calls (enter s) = permute_calls s" by (simp add: enter_def Let_def)
  have ck: "calls_ok (enter s) x \<Longrightarrow> calls_ok s x" for x
    by (simp add: calls_ok_def pc)
  show "getopt_internal p nargc options s \<noteq> Inl DivByZero"
  proof
    assume a: "getopt_internal p nargc options s = Inl DivByZero"
    show False
    proof (cases "start_loop p nargc options (enter s)")
      case (Inl f)
      with a sl(1) show False by (simp add: getopt_internal_def)
    next
      case (Inr x)
      obtain c u where x: "x = (c, u)" by (cases x)
      from a Inr x have "option_letter nargc options u = Inl DivByZero"
        by (auto simp: getopt_internal_def split: control.splits)
      then show False by (auto dest: option_letter_fault)
    qed
  qed
  show "ordered_weak s1 \<and> optreset s1 = 0 \<and> (r1 \<noteq> - 2 \<longrightarrow> ordered s1) \<and> calls_ok s s1"
    if a: "getopt_internal p nargc options s = Inr (r1, s1)"
  proof -
    from a obtain c u where run: "start_loop p nargc options (enter s) = Inr (c, u)"
      and r: "(c = Return r1 \<and> s1 = u) \<or>
              ((\<forall>x. c \<noteq> Return x) \<and> option_letter nargc options u = Inr (r1, s1))"
      unfolding getopt_internal_def by (auto split: sum.splits control.splits)
    from sl(2) [OF run] have post: "calls_ok (enter s) u" "optreset u = 0" "ordered_weak u"
      "c \<noteq> Return (- 2) \<longrightarrow> ordered u"
      by (simp_all add: order_post_def)
    from r show ?thesis
    proof
      assume "c = Return r1 \<and> s1 = u"
      with post ck show ?thesis by auto
    next
      assume h: "(\<forall>x. c \<noteq> Return x) \<and> option_letter nargc options u = Inr (r1, s1)"
      then have ol: "option_letter nargc options u = Inr (r1, s1)" by simp
      note o = option_letter_order [OF post(3,2) ol]
      from o(4) have "calls_ok u s1" by (rule calls_ok_same)
      with post(1) have "calls_ok (enter s) s1" by (rule calls_ok_trans)
      with o ck show ?thesis by simp
    qed
  qed
qed

definition ret_calls :: "fault + (int \<times> scanner) \<Rightarrow> (int \<times> (int \<times> int \<times> int) list) option" where
  "ret_calls res = (case res of Inl f \<Rightarrow> None | Inr (r, s) \<Rightarrow> Some (r, permute_calls s))"

text \<open>
  C10.  Every \<open>permute_args\<close> call made by \<open>getopt_long\<close>, in its own body or in
  \<open>getopt_internal\<close>, has arguments \<open>nonopt_start < nonopt_end < opt_end\<close>: both block
  lengths handed to \<open>gcd\<close> are at least 1, \<open>gcd\<close> returns (the mathematical gcd) and no
  \<open>%\<close> or \<open>/\<close> divides by zero anywhere in the call.  The order of the cursors that
  guarantees this holds in the initial state (\<open>scan_inv_initial\<close>), holds after every call,
  does not mention the vector, \<open>nargc\<close> or the option strings, and is re-established by
  setting \<open>optreset\<close> (\<open>scan_inv_optreset\<close>).
\<close>

theorem permute_args_calls_ordered:
  assumes "scan_inv s"
  shows "getopt_long p nargc options lo idx s \<noteq> Inl DivByZero \<and>
         (\<forall>r s'. getopt_long p nargc options lo idx s = Inr (r, s') \<longrightarrow>
            scan_inv s' \<and>
            (\<exists>new. permute_calls s' = new @ permute_calls s \<and>
               (\<forall>(a, b, c)\<in>set new.
                  a < b \<and> b < c \<and> gcd_c (b - a) (c - b) = Inr (gcd (b - a) (c - b)))))"
proof (intro conjI allI impI)
  note gi = getopt_internal_order [OF assms, of p nargc options]
  show "getopt_long p nargc options lo idx s \<noteq> Inl DivByZero"
  proof
    assume a: "getopt_long p nargc options lo idx s = Inl DivByZero"
    show False
    proof (cases "getopt_internal p nargc options s")
      case (Inl f)
      with a gi(1) show False by (simp add: getopt_long_def)
    next
      case (Inr x)
      obtain r1 s1 where x: "x = (r1, s1)" by (cases x)
      from Inr x gi(2) have "ordered_weak s1" by simp
      moreover from a Inr x have "long_option options lo idx s1 = Inl DivByZero"
        by (auto simp: getopt_long_def split: if_splits)
      ultimately show False by (auto dest: long_option_fault)
    qed
  qed
  fix r s'
  assume run: "getopt_long p nargc options lo idx s = Inr (r, s')"
  then obtain r1 s1 where g1: "getopt_internal p nargc options s = Inr (r1, s1)"
    and g2: "if r1 = - 2 then long_option options lo idx s1 = Inr (r, s') else r = r1 \<and> s' = s1"
    by (auto simp: getopt_long_def split: sum.splits if_splits)
  from gi(2) [OF g1] have m: "ordered_weak s1" "optreset s1 = 0" "r1 \<noteq> - 2 \<longrightarrow> ordered s1"
    "calls_ok s s1" by simp_all
  have fin: "ordered s' \<and> calls_ok s s'"
  proof (cases "r1 = - 2")
    case True
    with g2 have lo: "long_option options lo idx s1 = Inr (r, s')" by simp
    from long_option_order [OF m(1,2) lo] m(4) show ?thesis
      by (auto intro: calls_ok_trans)
  next
    case False
    with g2 m show ?thesis by simp
  qed
  then show "scan_inv s'" by (simp add: scan_inv_def)
  from fin obtain new where new: "permute_calls s' = new @ permute_calls s"
    "\<forall>(a, b, c)\<in>set new. a < b \<and> b < c"
    by (auto simp: calls_ok_def)
  have "\<forall>(a, b, c)\<in>set new.
          a < b \<and> b < c \<and> gcd_c (b - a) (c - b) = Inr (gcd (b - a) (c - b))"
    using new(2) by (auto simp: gcd_c_gcd)
  with new(1) show "\<exists>new. permute_calls s' = new @ permute_calls s \<and>
               (\<forall>(a, b, c)\<in>set new.
                  a < b \<and> b < c \<and> gcd_c (b - a) (c - b) = Inr (gcd (b - a) (c - b)))"
    by blast
qed

text \<open>
  The theorem at a state with a deferred operand: \<open>x\<close> was skipped, \<open>-a\<close> was read, and the
  call at the end of the vector permutes with arguments \<open>(1, 2, 3)\<close>.
\<close>

theorem permute_args_calls_ordered_witness:
  "scan_inv ((initial [''prog'', ''x'', ''-a''] zero_mem)
               \<lparr>optind := 3, nonopt_start := 1, nonopt_end := 2\<rparr>) \<and>
   (\<exists>r s'. getopt_long False 3 ''a'' [] None
              ((initial [''prog'', ''x'', ''-a''] zero_mem)
                 \<lparr>optind := 3, nonopt_start := 1, nonopt_end := 2\<rparr>) = Inr (r, s') \<and>
            permute_calls s' = [(1, 2, 3)] \<and> scan_inv s' \<and>
            gcd_c (2 - 1) (3 - 2) = Inr (gcd (2 - 1) (3 - 2)))"
proof -
  let ?s = "(initial [''prog'', ''x'', ''-a''] zero_mem)
               \<lparr>optind := 3, nonopt_start := 1, nonopt_end := 2\<rparr>"
  have inv: "scan_inv ?s"
    by (simp add: scan_inv_def ordered_def ordered_weak_def initial_def)
  have e: "ret_calls (getopt_long False 3 ''a'' [] None ?s) = Some (- 1, [(1, 2, 3)])"
    by code_simp
  then obtain r s' where run: "getopt_long False 3 ''a'' [] None ?s = Inr (r, s')"
    and pc: "permute_calls s' = [(1, 2, 3)]"
    by (auto simp: ret_calls_def split: sum.splits)
  have p0: "permute_calls ?s = []" by (simp add: initial_def)
  from permute_args_calls_ordered [OF inv, of False 3 "''a''" "[]" None] run
  have "scan_inv s'" and "\<exists>new. permute_calls s' = new @ permute_calls ?s \<and>
               (\<forall>(a, b, c)\<in>set new.
                  a < b \<and> b < c \<and> gcd_c (b - a) (c - b) = Inr (gcd (b - a) (c - b)))"
    by blast+
  with pc p0 have "gcd_c (2 - 1) (3 - 2) = Inr (gcd (2 - 1) (3 - 2))" by auto
  with inv run pc \<open>scan_inv s'\<close> show ?thesis by blast
qed


subsection \<open>Calls after the end of the scan\<close>

text \<open>
  A \<open>permute_args\<close> call that returns has touched every index of the two blocks: the
  index sequences of the cycles cover \<open>[panonopt_start, opt_end)\<close> and every index visited
  is checked.  So a call that returns was given \<open>opt_end \<le> length v\<close>.
\<close>

lemma valid_index_update [simp]: "valid_index (v[i := x]) q = valid_index v q"
  by (simp add: valid_index_def)

lemma cycle_loop_visits:
  "cycle_loop pe nn no cs cl j pos v = Inr v' \<Longrightarrow> j \<le> k \<Longrightarrow> k < cl \<Longrightarrow>
   valid_index v ((next_pos pe nn no ^^ Suc (nat (k - j))) pos)"
proof (induction pe nn no cs cl j pos v rule: cycle_loop.induct)
  case (1 pe nn no cs cl j pos v)
  from "1.prems" have jl: "j < cl" by simp
  let ?pos' = "next_pos pe nn no pos"
  from "1.prems"(1) jl have ok: "valid_index v ?pos' \<and> valid_index v cs"
    by (subst (asm) cycle_loop.simps) (auto simp: Let_def split: if_splits)
  with "1.prems"(1) jl have rec: "cycle_loop pe nn no cs cl (j + 1) ?pos'
       (v[nat ?pos' := v ! nat cs, nat cs := v ! nat ?pos']) = Inr v'"
    by (subst (asm) cycle_loop.simps) (simp add: Let_def)
  show ?case
  proof (cases "k = j")
    case True
    with ok show ?thesis by simp
  next
    case False
    with "1.prems" have k: "j + 1 \<le> k" by simp
    from "1.IH" [OF jl refl ok rec k "1.prems"(3)]
    have "valid_index v ((next_pos pe nn no ^^ Suc (nat (k - (j + 1)))) ?pos')" by simp
    moreover from k have "Suc (nat (k - (j + 1))) = nat (k - j)" by simp
    ultimately have "valid_index v ((next_pos pe nn no ^^ nat (k - j)) ?pos')" by simp
    then show ?thesis by (simp add: funpow_swap1)
  qed
qed

lemma valid_index_length: "length v' = length v \<Longrightarrow> valid_index v' q = valid_index v q"
  by (simp add: valid_index_def)

lemma permute_loop_visits:
  "permute_loop pe nn no cl nc i v = Inr v' \<Longrightarrow> i \<le> i' \<Longrightarrow> i' < nc \<Longrightarrow> 0 \<le> k \<Longrightarrow> k < cl \<Longrightarrow>
   valid_index v ((next_pos pe nn no ^^ Suc (nat k)) (pe + i'))"
proof (induction pe nn no cl nc i v rule: permute_loop.induct)
  case (1 pe nn no cl nc i v)
  from "1.prems" have il: "i < nc" by simp
  from "1.prems"(1) il obtain v1 where
    c: "cycle_loop pe nn no (pe + i) cl 0 (pe + i) v = Inr v1"
    and r: "permute_loop pe nn no cl nc (i + 1) v1 = Inr v'"
    by (subst (asm) permute_loop.simps) (auto split: sum.splits)
  show ?case
  proof (cases "i' = i")
    case True
    from cycle_loop_visits [OF c "1.prems"(4,5)] True show ?thesis by simp
  next
    case False
    with "1.prems" have "i + 1 \<le> i'" by simp
    from "1.IH" [OF il c r this "1.prems"(3,4,5)]
    show ?thesis by (simp add: valid_index_length [OF cycle_loop_length [OF c]])
  qed
qed

lemma permute_args_in_range:
  assumes "0 \<le> ps" "ps < pe" "pe < oe" and run: "permute_args ps pe oe v = Inr v'"
  shows "oe \<le> int (length v)"
proof -
  define n a b where "n = nat ps" and "a = nat (pe - ps)" and "b = nat (oe - pe)"
  from assms(1-3) have ab: "0 < a" "0 < b"
    and pse: "ps = int n" "pe = int (n + a)" "oe = int (n + a + b)"
    by (simp_all add: n_def a_def b_def)
  have d: "int (n + a) - int n = int a" "int (n + a + b) - int (n + a) = int b"
    "int (n + a + b) - int n = int (a + b)"
    by simp_all
  have g0: "int (gcd a b) \<noteq> 0" using ab by simp
  have cl: "c_div (int (a + b)) (int (gcd a b)) = int (cycle_len a b)"
    using ab by (simp add: c_div_nonneg cycle_len_def zdiv_int)
  from run have pl: "permute_loop (int (n + a)) (int a) (int b) (int (cycle_len a b))
      (int (gcd a b)) 0 v = Inr v'"
    unfolding pse permute_args_def Let_def d
    using gcd_c_nat [OF ab(2), of a] g0 cl ab by (simp del: of_nat_add)
  have "n \<le> n + a + b - 1" "n + a + b - 1 < n + a + b" using ab by simp_all
  from cyc_pos_cover [OF ab(1) this] obtain i k where
    i: "i < gcd a b" and k: "k < cycle_len a b" and q: "n + a + b - 1 = cyc_pos n a b i k"
    by blast
  have L0: "0 < cycle_len a b" by (rule cyc_basic(4) [OF ab(1)])
  obtain k' where k': "k' < cycle_len a b" and q': "cyc_pos n a b i (Suc k') = n + a + b - 1"
  proof (cases k)
    case 0
    show ?thesis
    proof (rule that [of "cycle_len a b - 1"])
      show "cycle_len a b - 1 < cycle_len a b" using L0 by simp
      from L0 have "Suc (cycle_len a b - 1) = cycle_len a b" by simp
      then show "cyc_pos n a b i (Suc (cycle_len a b - 1)) = n + a + b - 1"
        using cyc_pos_L [OF ab(1), of n b i] q 0 by simp
    qed
  next
    case (Suc m)
    with k q show ?thesis by (intro that [of m]) simp_all
  qed
  from permute_loop_visits [OF pl, of "int i" "int k'"] i k'
  have "valid_index v ((next_pos (int (n + a)) (int a) (int b) ^^ Suc k') (int (n + a) + int i))"
    by simp
  moreover have "int (n + a) + int i = int (n + a + i)" by simp
  ultimately have "valid_index v (int (cyc_pos n a b i (Suc k')))"
    using next_pos_funpow [OF ab i, where ps = n and k = "Suc k'"] by (simp only:)
  with q' have "n + a + b - 1 < length v" by (simp add: valid_index_def)
  with ab show ?thesis unfolding pse by simp
qed

text \<open>
  \<open>non_option tok\<close> is the test of line 230: the word does not start with \<open>-\<close>, or it
  is the single character \<open>-\<close> (or empty).
  \<open>operands v a b\<close>: the words of the vector at the indices \<open>a \<le> i < b\<close> exist and are all
  non-options (\<open>operands_iff\<close>).
\<close>

definition non_option :: "string \<Rightarrow> bool" where
  "non_option tok = (deref tok \<noteq> CHR ''-'' \<or> tl tok = [])"

definition operands :: "string list \<Rightarrow> int \<Rightarrow> int \<Rightarrow> bool" where
  "operands v a b =
     (a < b \<longrightarrow> 0 \<le> a \<and> b \<le> int (length v) \<and>
        list_all non_option (take (nat (b - a)) (drop (nat a) v)))"

lemma operands_iff:
  "operands v a b \<longleftrightarrow>
   (\<forall>i. a \<le> i \<and> i < b \<longrightarrow> 0 \<le> i \<and> i < int (length v) \<and> non_option (v ! nat i))"
proof (cases "a < b")
  case False
  then show ?thesis by (auto simp: operands_def)
next
  case True
  show ?thesis
  proof
    assume o: "operands v a b"
    with True have a0: "0 \<le> a" and bl: "b \<le> int (length v)"
      and la: "list_all non_option (take (nat (b - a)) (drop (nat a) v))"
      by (simp_all add: operands_def)
    show "\<forall>i. a \<le> i \<and> i < b \<longrightarrow> 0 \<le> i \<and> i < int (length v) \<and> non_option (v ! nat i)"
    proof (intro allI impI)
      fix i assume i: "a \<le> i \<and> i < b"
      define j where "j = nat (i - a)"
      from i a0 bl have j: "j < nat (b - a)" "nat a + j < length v" "nat i = nat a + j"
        unfolding j_def by linarith+
      from j have "j < length (take (nat (b - a)) (drop (nat a) v))" by simp
      with la have "non_option (take (nat (b - a)) (drop (nat a) v) ! j)"
        by (simp only: list_all_length)
      with j have "non_option (v ! nat i)" by simp
      with i a0 bl show "0 \<le> i \<and> i < int (length v) \<and> non_option (v ! nat i)" by simp
    qed
  next
    assume r: "\<forall>i. a \<le> i \<and> i < b \<longrightarrow> 0 \<le> i \<and> i < int (length v) \<and> non_option (v ! nat i)"
    from r [rule_format, of a] True have a0: "0 \<le> a" by simp
    from r [rule_format, of "b - 1"] True have bl: "b \<le> int (length v)" by simp
    have "list_all non_option (take (nat (b - a)) (drop (nat a) v))"
      unfolding list_all_length
    proof (intro allI impI)
      fix j assume "j < length (take (nat (b - a)) (drop (nat a) v))"
      then have j: "j < nat (b - a)" "nat a + j < length v" by auto
      from j a0 have "a \<le> a + int j \<and> a + int j < b" by simp
      from r [rule_format, OF this] have "non_option (v ! nat (a + int j))" by simp
      moreover from a0 have "nat (a + int j) = nat a + j" by simp
      ultimately show "non_option (take (nat (b - a)) (drop (nat a) v) ! j)" using j by simp
    qed
    with a0 bl show "operands v a b" by (simp add: operands_def)
  qed
qed

lemma operands_empty: "b \<le> a \<Longrightarrow> operands v a b"
  by (simp add: operands_def)

lemma operands_mono: "operands v a b \<Longrightarrow> b' \<le> b \<Longrightarrow> operands v a b'"
  unfolding operands_iff by auto

lemma operands_snoc:
  "operands v a b \<Longrightarrow> 0 \<le> b \<Longrightarrow> b < int (length v) \<Longrightarrow> non_option (v ! nat b) \<Longrightarrow>
   operands v a (b + 1)"
  unfolding operands_iff
proof (intro allI impI)
  fix i
  assume h: "\<forall>i. a \<le> i \<and> i < b \<longrightarrow> 0 \<le> i \<and> i < int (length v) \<and> non_option (v ! nat i)"
    and b: "0 \<le> b" "b < int (length v)" "non_option (v ! nat b)" and i: "a \<le> i \<and> i < b + 1"
  show "0 \<le> i \<and> i < int (length v) \<and> non_option (v ! nat i)"
  proof (cases "i = b")
    case True
    with b show ?thesis by simp
  next
    case False
    with i have "a \<le> i \<and> i < b" by simp
    with h show ?thesis by blast
  qed
qed

lemma operands_single:
  "0 \<le> b \<Longrightarrow> b < int (length v) \<Longrightarrow> non_option (v ! nat b) \<Longrightarrow> operands v b (b + 1)"
  by (rule operands_snoc [OF operands_empty]) simp_all

lemma operands_first:
  "operands v a b \<Longrightarrow> a < b \<Longrightarrow> 0 \<le> a \<and> a < int (length v) \<and> non_option (v ! nat a)"
  unfolding operands_iff by auto

lemma permute_args_len:
  assumes ab: "0 < a" "0 < b"
    and run: "permute_args (int n) (int (n + a)) (int (n + a + b)) v = Inr v'"
  shows "n + a + b \<le> length v"
proof -
  have h: "0 \<le> int n" "int n < int (n + a)" "int (n + a) < int (n + a + b)"
    using ab by simp_all
  from permute_args_in_range [OF h run] show ?thesis by simp
qed

lemma permute_args_nth:
  assumes ab: "0 < a" "0 < b"
    and run: "permute_args (int n) (int (n + a)) (int (n + a + b)) v = Inr v'"
    and t: "t < length v"
  shows "v' ! t = (if t < n then v ! t
                   else if t < n + b then v ! (t + a)
                   else if t < n + a + b then v ! (t - b)
                   else v ! t)"
proof -
  have h: "0 \<le> int n" "int n < int (n + a)" "int (n + a) < int (n + a + b)"
    using ab by simp_all
  note len = permute_args_len [OF ab run]
  then have l: "int (n + a + b) \<le> int (length v)" by simp
  have d: "nat (int (n + a + b) - int (n + a)) = b" "nat (int (n + a) - int n) = a" by simp_all
  from permute_args_value [OF h l] run
  have "v' = take n v @ take b (drop (n + a) v) @ take a (drop n v) @ drop (n + a + b) v"
    unfolding d nat_int by simp
  with nth_rotated [OF len t] show ?thesis by (simp only:)
qed

lemma operands_permuted:
  assumes r: "0 \<le> ps" "ps < pe" "pe < oe" and run: "permute_args ps pe oe v = Inr v'"
    and ops: "operands v ps pe"
  shows "operands v' (oe - (pe - ps)) oe"
proof -
  define n a b where "n = nat ps" and "a = nat (pe - ps)" and "b = nat (oe - pe)"
  from r have ab: "0 < a" "0 < b"
    and pse: "ps = int n" "pe = int (n + a)" "oe = int (n + a + b)"
    by (simp_all add: n_def a_def b_def)
  note run' = run [unfolded pse]
  have len': "length v' = length v" by (rule permute_args_length [OF run])
  show ?thesis
    unfolding operands_iff
  proof (intro allI impI)
    fix i assume i: "oe - (pe - ps) \<le> i \<and> i < oe"
    define t where "t = nat i"
    from i have it: "i = int t" and t: "n + b \<le> t" "t < n + a + b"
      unfolding t_def pse by linarith+
    from permute_args_len [OF ab run'] t have tl: "t < length v" by simp
    from permute_args_nth [OF ab run' tl] t have e: "v' ! t = v ! (t - b)" by simp
    from t have "ps \<le> int (t - b) \<and> int (t - b) < pe" by (simp add: pse)
    with ops have "non_option (v ! nat (int (t - b)))" unfolding operands_iff by blast
    with e tl len' show "0 \<le> i \<and> i < int (length v') \<and> non_option (v' ! nat i)"
      by (simp add: it)
  qed
qed

lemma permute_args_above:
  assumes r: "0 \<le> ps" "ps < pe" "pe < oe" and run: "permute_args ps pe oe v = Inr v'"
    and i: "oe \<le> i" "i < int (length v)"
  shows "v' ! nat i = v ! nat i"
proof -
  define n a b where "n = nat ps" and "a = nat (pe - ps)" and "b = nat (oe - pe)"
  from r have ab: "0 < a" "0 < b"
    and pse: "ps = int n" "pe = int (n + a)" "oe = int (n + a + b)"
    by (simp_all add: n_def a_def b_def)
  from i have t: "nat i < length v" "n + a + b \<le> nat i" by (simp_all add: pse)
  from permute_args_nth [OF ab run [unfolded pse] t(1)] t(2) show ?thesis by simp
qed

text \<open>
  What the scanner knows about the operands it has skipped.  \<open>block_inv\<close> is the form that
  holds at the label \<open>start\<close>: without permutation nothing is ever skipped; the words from
  \<open>nonopt_start\<close> to \<open>nonopt_end\<close> (to \<open>optind\<close> while the block is still open) are
  non-options; and a block is open only while a new word is about to be read.
  \<open>closed_block\<close> is the form that holds between two calls, where a block is never open.
  \<open>tracked\<close> adds the order of the cursors, and asks nothing when \<open>optreset\<close> is set.
  \<open>exhausted\<close> describes the state after \<open>getopt_internal\<close> has returned \<open>-1\<close>: nothing
  is deferred, and either the words from \<open>optind\<close> to \<open>nargc\<close> are all non-options
  (permuting), or \<open>optind\<close> is at the end of the vector or (stopping at the first operand)
  at a non-option.
\<close>

definition block_inv :: "bool \<Rightarrow> string \<Rightarrow> scanner \<Rightarrow> bool" where
  "block_inv p options t =
     ((\<not> PERMUTE p options \<longrightarrow> nonopt_start t = - 1) \<and>
      (nonopt_start t \<noteq> - 1 \<longrightarrow>
         operands (nargv t) (nonopt_start t)
           (if nonopt_end t = - 1 then optind t else nonopt_end t)) \<and>
      (nonopt_start t \<noteq> - 1 \<and> nonopt_end t = - 1 \<longrightarrow> optreset t \<noteq> 0 \<or> place t = []))"

definition closed_block :: "bool \<Rightarrow> string \<Rightarrow> scanner \<Rightarrow> bool" where
  "closed_block p options s =
     ((\<not> PERMUTE p options \<longrightarrow> nonopt_start s = - 1) \<and>
      (nonopt_start s \<noteq> - 1 \<longrightarrow>
         nonopt_end s \<noteq> - 1 \<and> operands (nargv s) (nonopt_start s) (nonopt_end s)))"

definition tracked :: "bool \<Rightarrow> string \<Rightarrow> scanner \<Rightarrow> bool" where
  "tracked p options s = (optreset s \<noteq> 0 \<or> (ordered s \<and> closed_block p options s))"

definition exhausted :: "bool \<Rightarrow> int \<Rightarrow> string \<Rightarrow> scanner \<Rightarrow> bool" where
  "exhausted p nargc options s =
     (optreset s = 0 \<and> place s = [] \<and> nonopt_start s = - 1 \<and> nonopt_end s = - 1 \<and>
      optind s \<noteq> 0 \<and>
      (if PERMUTE p options then operands (nargv s) (optind s) nargc
       else nargc \<le> optind s \<or>
            (\<not> IN_ORDER p options \<and> operands (nargv s) (optind s) (optind s + 1))))"

lemma PERMUTE_not_IN_ORDER: "PERMUTE p options \<Longrightarrow> \<not> IN_ORDER p options"
  by (auto simp: PERMUTE_def IN_ORDER_def IGNORE_FIRST_def)

lemma argv_read_token:
  "argv_read v i = Inr (Some tok) \<Longrightarrow> 0 \<le> i \<and> i < int (length v) \<and> v ! nat i = tok"
  by (auto simp: argv_read_def split: if_splits)

lemma scan_step_block_goto:
  assumes o: "ordered t" and b: "block_inv p options t"
    and st: "scan_step p nargc options t = Inr (Goto_start, u)"
  shows "block_inv p options u"
  using st
proof (cases rule: scan_stepE)
  case fall
  then show ?thesis by simp
next
  case end_of_vector
  from end_of_vector_Inr [OF end_of_vector(3)] show ?thesis by simp
next
  case (option tok)
  from found_option_Inr [OF option(6)] show ?thesis by auto
next
  case (non_option tok)
  note e = found_non_option_Inr [OF non_option(5)]
  note tk = argv_read_token [OF non_option(3)]
  from non_option(4) tk have no: "non_option (nargv t ! nat (optind t))"
    by (simp add: non_option_def)
  from e have io: "\<not> IN_ORDER p options" by (auto split: if_splits)
  with e have pm: "PERMUTE p options" by (auto split: if_splits)
  from e io pm have pl: "place u = []" and oi: "optind u = optind t + 1"
    and ne: "nonopt_end u = (if nonopt_start t = - 1 then nonopt_end t else - 1)"
    by simp_all
  from o have w: "ordered_weak t" by (simp add: ordered_def)
  have ops: "nonopt_start u \<noteq> - 1 \<and> nonopt_end u = - 1 \<and>
      operands (nargv u) (nonopt_start u) (optind t + 1)"
  proof (cases "nonopt_start t \<noteq> - 1 \<and> nonopt_end t \<noteq> - 1")
    case True
    with e io pm have run: "permute_args (nonopt_start t) (nonopt_end t) (optind t) (nargv t)
          = Inr (nargv u)"
      and ns: "nonopt_start u = optind t - (nonopt_end t - nonopt_start t)"
      by simp_all
    from True o non_option(1) have r: "0 \<le> nonopt_start t" "nonopt_start t < nonopt_end t"
      "nonopt_end t < optind t"
      by (auto simp: ordered_def ordered_weak_def)
    from True b have "operands (nargv t) (nonopt_start t) (nonopt_end t)"
      by (simp add: block_inv_def)
    from operands_permuted [OF r run this]
    have 1: "operands (nargv u) (nonopt_start u) (optind t)" by (simp add: ns)
    have len: "length (nargv u) = length (nargv t)" by (rule permute_args_length [OF run])
    from permute_args_above [OF r run order_refl] tk
    have "nargv u ! nat (optind t) = nargv t ! nat (optind t)" by simp
    with no tk len have "0 \<le> optind t" "optind t < int (length (nargv u))"
      "non_option (nargv u ! nat (optind t))" by simp_all
    from operands_snoc [OF 1 this] ns r ne True show ?thesis by simp
  next
    case False
    with e io pm have nv: "nargv u = nargv t"
      and ns: "nonopt_start u = (if nonopt_start t = - 1 then optind t else nonopt_start t)"
      by simp_all
    show ?thesis
    proof (cases "nonopt_start t = - 1")
      case True
      with w have "nonopt_end t = - 1" by (simp add: ordered_weak_def)
      with True ns ne nv tk no operands_single [of "optind t" "nargv t"] show ?thesis by simp
    next
      case f: False
      with False have ne1: "nonopt_end t = - 1" by simp
      with f b have "operands (nargv t) (nonopt_start t) (optind t)" by (simp add: block_inv_def)
      from operands_snoc [OF this] tk no f ns ne nv show ?thesis by simp
    qed
  qed
  with pm pl oi show ?thesis by (simp add: block_inv_def)
qed

lemma scan_step_block_final:
  assumes o: "ordered t" and nz: "optind t \<noteq> 0" and b: "block_inv p options t"
    and st: "scan_step p nargc options t = Inr (c, u)" and c: "c \<noteq> Goto_start"
  shows "closed_block p options u \<and> (c = Return (- 1) \<longrightarrow> exhausted p nargc options u)"
proof -
  from o have w: "ordered_weak t" by (simp add: ordered_def)
  from st show ?thesis
  proof (cases rule: scan_stepE)
    case fall
    with b show ?thesis by (auto simp: block_inv_def closed_block_def)
  next
    case end_of_vector
    note e = end_of_vector_Inr [OF end_of_vector(3)]
    from e have f: "c = Return (- 1)" "place u = []" "nonopt_start u = - 1" "nonopt_end u = - 1"
      "optreset u = 0" by simp_all
    then have cb: "closed_block p options u" by (simp add: closed_block_def)
    have rest: "optind u \<noteq> 0 \<and> operands (nargv u) (optind u) nargc \<and>
       (\<not> PERMUTE p options \<longrightarrow> nargc \<le> optind u)"
    proof (cases "nonopt_end t \<noteq> - 1")
      case True
      with e have run: "permute_args (nonopt_start t) (nonopt_end t) (optind t) (nargv t)
          = Inr (nargv u)"
        and oi: "optind u = optind t - (nonopt_end t - nonopt_start t)"
        by simp_all
      from True o end_of_vector(1) have r: "0 \<le> nonopt_start t" "nonopt_start t < nonopt_end t"
        "nonopt_end t < optind t" and ns: "nonopt_start t \<noteq> - 1" "0 < nonopt_start t"
        by (auto simp: ordered_def ordered_weak_def)
      from True ns b have "operands (nargv t) (nonopt_start t) (nonopt_end t)"
        and pm: "PERMUTE p options"
        by (auto simp: block_inv_def)
      from operands_permuted [OF r run this(1)]
      have "operands (nargv u) (optind u) (optind t)" by (simp add: oi)
      from operands_mono [OF this end_of_vector(2)] oi r ns pm show ?thesis by simp
    next
      case False
      then have ne: "nonopt_end t = - 1" by simp
      with e have nv: "nargv u = nargv t"
        and oi: "optind u = (if nonopt_start t \<noteq> - 1 then nonopt_start t else optind t)"
        by simp_all
      show ?thesis
      proof (cases "nonopt_start t = - 1")
        case True
        with oi nz end_of_vector(2) show ?thesis by (simp add: operands_empty)
      next
        case f: False
        with ne b have "operands (nargv t) (nonopt_start t) (optind t)"
          and pm: "PERMUTE p options"
          by (auto simp: block_inv_def)
        from operands_mono [OF this(1) end_of_vector(2)] f w oi nv pm show ?thesis
          by (simp add: ordered_weak_def)
      qed
    qed
    with f cb show ?thesis by (simp add: exhausted_def)
  next
    case (option tok)
    note e = found_option_Inr [OF option(6)]
    note tk = argv_read_token [OF option(3)]
    from e have c1: "c \<noteq> Return (- 1)" by auto
    from e b tk have "closed_block p options u"
      by (auto simp: block_inv_def closed_block_def)
    with c1 show ?thesis by simp
  next
    case (non_option tok)
    note e = found_non_option_Inr [OF non_option(5)]
    note tk = argv_read_token [OF non_option(3)]
    from non_option(4) tk have no: "non_option (nargv t ! nat (optind t))"
      by (simp add: non_option_def)
    from e c have np: "\<not> PERMUTE p options"
      by (auto split: if_splits dest: PERMUTE_not_IN_ORDER)
    with b have ns: "nonopt_start t = - 1" by (simp add: block_inv_def)
    with w have ne: "nonopt_end t = - 1" by (simp add: ordered_weak_def)
    show ?thesis
    proof (cases "IN_ORDER p options")
      case True
      with e ns np show ?thesis by (simp add: closed_block_def INORDER_def)
    next
      case False
      with e np have f: "c = Return (- 1)" "place u = []" "optreset u = 0" "optind u = optind t"
        "nargv u = nargv t" "nonopt_start u = nonopt_start t" "nonopt_end u = nonopt_end t"
        by simp_all
      with ns ne np nz False tk no operands_single [of "optind t" "nargv t"] show ?thesis
        by (simp add: closed_block_def exhausted_def)
    qed
  qed
qed

lemma start_loop_block:
  assumes "ordered s0" "optind s0 \<noteq> 0" "block_inv p options s0"
    and run: "start_loop p nargc options s0 = Inr (c, u)"
  shows "closed_block p options u \<and> (c = Return (- 1) \<longrightarrow> exhausted p nargc options u)"
proof -
  let ?J = "\<lambda>t. order_inv s0 t \<and> block_inv p options t"
  let ?Q = "\<lambda>c u. closed_block p options u \<and> (c = Return (- 1) \<longrightarrow> exhausted p nargc options u)"
  from assms have j: "?J s0" by (simp add: order_inv_def calls_ok_same)
  have step: "?J u" if "?J t" "scan_step p nargc options t = Inr (Goto_start, u)" for t u
    using that scan_step_order_goto [of s0 t p nargc options u]
      scan_step_block_goto [of t p options nargc u]
    by (simp add: order_inv_def)
  have fin: "?Q c u" if "?J t" "scan_step p nargc options t = Inr (c, u)" "c \<noteq> Goto_start"
    for t c u
    using that scan_step_block_final [of t p options nargc c u] by (simp add: order_inv_def)
  show ?thesis
    by (rule start_loop_rule [where J = ?J and Q = ?Q, OF j step fin run])
qed

text \<open>
  The option-letter code returns \<open>BADCH\<close>, \<open>BADARG\<close>, \<open>-2\<close> or the value of a letter that
  the option string declares; so it returns \<open>-1\<close> only for the declared byte \<open>0xFF\<close>.
\<close>

lemma option_letter_not_m1:
  assumes "option_letter nargc options u = Inr (r, s')" and "CHR 0xFF \<notin> set options"
  shows "r \<noteq> - 1"
proof -
  let ?o = "if IGNORE_FIRST options then tl options else options"
  have b: "BADCH \<noteq> - 1" "BADARG options \<noteq> - 1"
    using BADARG_value [of options] by (auto simp: BADCH_value)
  from assms(1) have "r = BADCH \<or> r = BADARG options \<or> r = - 2 \<or>
      (r = ord (deref (place u)) \<and> strchr ?o (deref (place u)) \<noteq> None)"
    by (auto simp: option_letter_def Let_def split: if_splits sum.splits option.splits)
  moreover have "ord (deref (place u)) \<noteq> - 1" if "strchr ?o (deref (place u)) \<noteq> None"
  proof -
    from that have "deref (place u) \<in> set ?o" by (simp add: strchr_None)
    then have "deref (place u) \<in> set options" by (cases options) (auto split: if_splits)
    with assms(2) show ?thesis by (auto simp: ord_m1)
  qed
  ultimately show ?thesis using b by auto
qed

lemma long_option_nargv:
  assumes "long_option options lo idx s1 = Inr (r, s')" "place s1 \<noteq> []"
  shows "nargv s' = nargv s1"
  using assms
  by (cases "PRINT_ERROR s1 options")
     (auto simp: long_option_def Let_def warnx_def
           split: if_splits sum.splits prod.splits option.splits)

text \<open>
  \<open>tracked\<close> holds in the initial state (\<open>tracked_initial\<close>) and after every call that
  starts from a tracked state (\<open>tracked_preserved\<close>); an \<open>exhausted\<close> state is left
  exhausted, with the same cursors and vector, by one more call (\<open>exhausted_again\<close>).
\<close>

lemma tracked_scan_inv: "tracked p options s \<Longrightarrow> scan_inv s"
  by (auto simp: tracked_def scan_inv_def)

lemma tracked_enter:
  assumes "tracked p options s"
  shows "ordered (enter s)" "optind (enter s) \<noteq> 0" "block_inv p options (enter s)"
proof -
  from ordered_enter [OF tracked_scan_inv [OF assms]]
  show "ordered (enter s)" "optind (enter s) \<noteq> 0" by simp_all
  from assms show "block_inv p options (enter s)"
    by (auto simp: tracked_def closed_block_def block_inv_def enter_def Let_def)
qed

lemma tracked_initial: "tracked p options (initial v m)"
  by (simp add: tracked_def closed_block_def initial_def ordered_def ordered_weak_def)

lemma getopt_internal_block:
  assumes t: "tracked p options s" and run: "getopt_internal p nargc options s = Inr (r, s1)"
  shows "closed_block p options s1"
    and "CHR 0xFF \<notin> set options \<Longrightarrow> r = - 1 \<Longrightarrow> exhausted p nargc options s1"
proof -
  from run obtain c u where sl: "start_loop p nargc options (enter s) = Inr (c, u)"
    and r: "(c = Return r \<and> s1 = u) \<or>
            ((\<forall>x. c \<noteq> Return x) \<and> option_letter nargc options u = Inr (r, s1))"
    unfolding getopt_internal_def by (auto split: sum.splits control.splits)
  note b = start_loop_block [OF tracked_enter [OF t] sl]
  have "closed_block p options s1 \<and>
        (CHR 0xFF \<notin> set options \<longrightarrow> r = - 1 \<longrightarrow> exhausted p nargc options s1)"
    using r
  proof
    assume "c = Return r \<and> s1 = u"
    with b show ?thesis by simp
  next
    assume h: "(\<forall>x. c \<noteq> Return x) \<and> option_letter nargc options u = Inr (r, s1)"
    then have ol: "option_letter nargc options u = Inr (r, s1)" by simp
    from option_letter_frame(3-5) [OF ol] b have "closed_block p options s1"
      by (simp add: closed_block_def)
    with option_letter_not_m1 [OF ol] show ?thesis by auto
  qed
  then show "closed_block p options s1"
    and "CHR 0xFF \<notin> set options \<Longrightarrow> r = - 1 \<Longrightarrow> exhausted p nargc options s1"
    by simp_all
qed

lemma tracked_preserved:
  assumes t: "tracked p options s" and run: "getopt_long p nargc options lo idx s = Inr (r, s')"
  shows "tracked p options s'"
proof -
  from run obtain r1 s1 where g1: "getopt_internal p nargc options s = Inr (r1, s1)"
    and g2: "if r1 = - 2 then long_option options lo idx s1 = Inr (r, s') else r = r1 \<and> s' = s1"
    by (auto simp: getopt_long_def split: sum.splits if_splits)
  from getopt_internal_order(2) [OF tracked_scan_inv [OF t] g1]
  have m: "ordered_weak s1" "optreset s1 = 0" "r1 \<noteq> - 2 \<longrightarrow> ordered s1" by simp_all
  note cb = getopt_internal_block(1) [OF t g1]
  show ?thesis
  proof (cases "r1 = - 2")
    case False
    with g2 m cb show ?thesis by (simp add: tracked_def)
  next
    case True
    with g2 have lo: "long_option options lo idx s1 = Inr (r, s')" by simp
    note o = long_option_order(1) [OF m(1,2) lo]
    note eff = long_option_effect(3) [OF lo]
    have "closed_block p options s'"
    proof (cases "place s1 = []")
      case True
      with eff have "nonopt_start s' = - 1" by (simp split: if_splits)
      then show ?thesis by (simp add: closed_block_def)
    next
      case False
      with eff long_option_nargv [OF lo False] cb show ?thesis
        by (simp add: closed_block_def)
    qed
    with o show ?thesis by (simp add: tracked_def)
  qed
qed












subsection \<open>When a call arrives at an option letter\<close>

lemma scan_to_letter_cluster:
  assumes "optreset s = 0" and "place s = c # rest"
  shows "scan_to_letter p nargc options s = Some (c, rest, enter s)"
proof -
  from assms have "optreset (enter s) = 0" "place (enter s) = c # rest"
    by (simp_all add: enter_def Let_def)
  then show ?thesis by (simp add: scan_to_letter_def start_loop_mid)
qed

lemma scan_step_skip:
  assumes pm: "PERMUTE p options" and o: "ordered t"
    and st: "optreset t = 0" "place t = []"
    and i: "0 \<le> optind t" "optind t < nargc" "optind t < int (length (nargv t))"
    and no: "non_option (nargv t ! nat (optind t))"
  shows "\<exists>u. scan_step p nargc options t = Inr (Goto_start, u) \<and> optreset u = 0 \<and>
           place u = [] \<and> optind u = optind t + 1 \<and>
           length (nargv u) = length (nargv t) \<and>
           (\<forall>k. optind t \<le> k \<and> k < int (length (nargv t)) \<longrightarrow>
              nargv u ! nat k = nargv t ! nat k)"
proof -
  from i have rd: "argv_read (nargv t) (optind t) = Inr (Some (nargv t ! nat (optind t)))"
    by (simp add: argv_read_def)
  from no have no': "deref (nargv t ! nat (optind t)) \<noteq> CHR ''-'' \<or>
      tl (nargv t ! nat (optind t)) = []"
    by (simp add: non_option_def)
  from pm have io: "\<not> IN_ORDER p options" by (rule PERMUTE_not_IN_ORDER)
  show ?thesis
  proof (cases "nonopt_start t \<noteq> - 1 \<and> nonopt_end t \<noteq> - 1")
    case True
    with o st have r: "0 \<le> nonopt_start t" "nonopt_start t < nonopt_end t"
      "nonopt_end t < optind t"
      by (auto simp: ordered_def ordered_weak_def)
    from i have le: "optind t \<le> int (length (nargv t))" by simp
    let ?v = "take (nat (nonopt_start t)) (nargv t) @
        take (nat (optind t - nonopt_end t)) (drop (nat (nonopt_end t)) (nargv t)) @
        take (nat (nonopt_end t - nonopt_start t)) (drop (nat (nonopt_start t)) (nargv t)) @
        drop (nat (optind t)) (nargv t)"
    note pv = permute_args_value [OF r le]
    have len: "length ?v = length (nargv t)" using permute_args_length [OF pv] .
    have ab: "?v ! nat k = nargv t ! nat k" if "optind t \<le> k" "k < int (length (nargv t))" for k
      by (rule permute_args_above [OF r pv that])
    have "scan_step p nargc options t =
        Inr (Goto_start,
             t\<lparr>optreset := 0, place := [], nargv := ?v,
               permute_calls := (nonopt_start t, nonopt_end t, optind t) # permute_calls t,
               nonopt_start := optind t - (nonopt_end t - nonopt_start t),
               nonopt_end := - 1, optind := optind t + 1\<rparr>)"
      using True pm io st i rd no' pv
      by (simp add: scan_step_def found_non_option_def call_permute_args_def Let_def)
    with len ab show ?thesis by simp
  next
    case False
    then have "scan_step p nargc options t =
        Inr (Goto_start,
             (if nonopt_start t = - 1
              then t\<lparr>optreset := 0, place := [], nonopt_start := optind t\<rparr>
              else t\<lparr>optreset := 0, place := []\<rparr>)\<lparr>optind := optind t + 1\<rparr>)"
      using pm io st i rd no'
      by (auto simp: scan_step_def found_non_option_def Let_def)
    then show ?thesis by auto
  qed
qed

lemma start_loop_skips:
  assumes pm: "PERMUTE p options" and j: "j < nargc" and c: "c \<noteq> CHR ''-''"
  shows "order_inv t0 t \<Longrightarrow> optreset t = 0 \<Longrightarrow> place t = [] \<Longrightarrow> 0 \<le> optind t \<Longrightarrow>
         optind t \<le> j \<Longrightarrow> j < int (length (nargv t)) \<Longrightarrow>
         operands (nargv t) (optind t) j \<Longrightarrow> nargv t ! nat j = CHR ''-'' # c # rest \<Longrightarrow>
         \<exists>u. start_loop p nargc options t = Inr (Fall_through, u) \<and> place u = c # rest \<and>
             optind u = j \<and> length (nargv u) = length (nargv t) \<and>
             (\<forall>k. j \<le> k \<and> k < int (length (nargv t)) \<longrightarrow> nargv u ! nat k = nargv t ! nat k)"
proof (induction t rule: start_loop_wf_induct [where p = p and nargc = nargc and options = options])
  case (step t)
  note inv = step.prems(1) and st = step.prems(2,3) and lo = step.prems(4)
    and le = step.prems(5) and len = step.prems(6) and ops = step.prems(7) and tok = step.prems(8)
  show ?case
  proof (cases "optind t = j")
    case True
    from st(2) have a: "optreset t \<noteq> 0 \<or> place t = []" by simp
    from True lo j len tok
    have "start_loop p nargc options t =
        Inr (Fall_through,
             t\<lparr>optreset := 0, place := rest,
               nonopt_end := (if nonopt_start t \<noteq> - 1 \<and> nonopt_end t = - 1
                              then optind t else nonopt_end t), place := c # rest\<rparr>)"
      using start_loop_token [OF a, of nargc c rest p options] c by (simp add: Let_def)
    with True show ?thesis by simp
  next
    case False
    with le have lt: "optind t < j" by simp
    from inv have o: "ordered t" by (simp add: order_inv_def)
    from operands_first [OF ops lt] have no: "non_option (nargv t ! nat (optind t))"
      "optind t < int (length (nargv t))" by simp_all
    from lt j have ltn: "optind t < nargc" by simp
    from scan_step_skip [OF pm o st lo ltn no(2,1)] obtain u1 where
      s1: "scan_step p nargc options t = Inr (Goto_start, u1)" and
      f: "optreset u1 = 0" "place u1 = []" "optind u1 = optind t + 1"
        "length (nargv u1) = length (nargv t)"
        "\<forall>k. optind t \<le> k \<and> k < int (length (nargv t)) \<longrightarrow> nargv u1 ! nat k = nargv t ! nat k"
      by blast
    note inv1 = scan_step_order_goto [OF inv s1]
    have ops1: "operands (nargv u1) (optind u1) j"
      unfolding operands_iff
    proof (intro allI impI)
      fix k assume k: "optind u1 \<le> k \<and> k < j"
      with f(3) lt have k': "optind t \<le> k \<and> k < j" by simp
      with ops have "0 \<le> k \<and> k < int (length (nargv t)) \<and> non_option (nargv t ! nat k)"
        unfolding operands_iff by blast
      with f(4,5) k' show "0 \<le> k \<and> k < int (length (nargv u1)) \<and> non_option (nargv u1 ! nat k)"
        by simp
    qed
    from f(5) lt len tok have tok1: "nargv u1 ! nat j = CHR ''-'' # c # rest" by simp
    from f(3) lo lt have b: "0 \<le> optind u1" "optind u1 \<le> j" by simp_all
    from len f(4) have len1: "j < int (length (nargv u1))" by simp
    from step.IH [OF s1 inv1 f(1,2) b len1 ops1 tok1] obtain u where
      u: "start_loop p nargc options u1 = Inr (Fall_through, u)" "place u = c # rest"
        "optind u = j" "length (nargv u) = length (nargv u1)"
        "\<forall>k. j \<le> k \<and> k < int (length (nargv u1)) \<longrightarrow> nargv u ! nat k = nargv u1 ! nat k"
      by blast
    from u(1) have "start_loop p nargc options t = Inr (Fall_through, u)"
      by (simp add: start_loop_unfold(2) [OF s1])
    moreover have "\<forall>k. j \<le> k \<and> k < int (length (nargv t)) \<longrightarrow>
        nargv u ! nat k = nargv t ! nat k"
      using u(5) f(4,5) lt by auto
    ultimately show ?thesis using u(2,3,4) f(4) by auto
  qed
qed

text \<open>
  With permutation on, a call that starts at a new token (not inside a cluster) in a state
  whose cursors are in order (\<open>ordered\<close>), with only non-options from \<open>optind\<close> up to the
  index \<open>j\<close> and the token \<open>-c rest\<close> at \<open>j\<close>, arrives at the letter \<open>c\<close> with \<open>optind\<close> at
  \<open>j\<close>; the tokens from \<open>j\<close> on are where they were.
\<close>

lemma scan_to_letter_behind_operands:
  assumes "PERMUTE p options" and "ordered s" and "optreset s = 0" and "place s = []"
    and "0 < optind s" and "optind s \<le> j" and "j < nargc" and "j < int (length (nargv s))"
    and "operands (nargv s) (optind s) j"
    and "nargv s ! nat j = CHR ''-'' # c # rest" and "c \<noteq> CHR ''-''"
  shows "\<exists>u. scan_to_letter p nargc options s = Some (c, rest, u) \<and> optind u = j \<and>
           length (nargv u) = length (nargv s) \<and>
           (\<forall>k. j \<le> k \<and> k < int (length (nargv s)) \<longrightarrow> nargv u ! nat k = nargv s ! nat k)"
proof -
  let ?t = "enter s"
  from assms(3,5) have e: "optreset ?t = 0" "place ?t = place s" "optind ?t = optind s"
    "nargv ?t = nargv s" "nonopt_start ?t = nonopt_start s" "nonopt_end ?t = nonopt_end s"
    by (simp_all add: enter_def Let_def)
  from assms(2) e have "ordered ?t" by (simp add: ordered_def ordered_weak_def)
  with e assms(5) have inv: "order_inv ?t ?t" by (simp add: order_inv_def calls_ok_same)
  from start_loop_skips [OF assms(1,7,11) inv, of rest] e assms
  obtain u where u: "start_loop p nargc options ?t = Inr (Fall_through, u)"
    "place u = c # rest" "optind u = j" "length (nargv u) = length (nargv s)"
    "\<forall>k. j \<le> k \<and> k < int (length (nargv s)) \<longrightarrow> nargv u ! nat k = nargv s ! nat k"
    by auto
  from u(1,2) have "scan_to_letter p nargc options s = Some (c, rest, u)"
    by (simp add: scan_to_letter_def)
  with u(3,4,5) show ?thesis by blast
qed

end
